theory Spec2Isabelle
  imports Main "HOL-Library.AList"
begin

section \<open>Python strings\<close>

text \<open>
  The string operations of Python that \<^verbatim>\<open>cli/command.py\<close> uses. A \<open>char\<close> stands for
  a code point below 256.
\<close>

definition startswith :: "string \<Rightarrow> string \<Rightarrow> bool" where
  \<comment> \<open>\<^verbatim>\<open>s.startswith(p)\<close>\<close>
  "startswith s p = (take (length p) s = p)"

fun contains :: "string \<Rightarrow> string \<Rightarrow> bool" where
  \<comment> \<open>\<^verbatim>\<open>sub in s\<close>\<close>
  "contains sub [] = (sub = [])"
| "contains sub (c # cs) = (startswith (c # cs) sub \<or> contains sub cs)"

fun split_first :: "string \<Rightarrow> string \<Rightarrow> (string \<times> string) option" where
  \<comment> \<open>the text before and after the first occurrence of a non-empty separator\<close>
  "split_first sep [] = None"
| "split_first sep (c # cs) =
     (if startswith (c # cs) sep then Some ([], drop (length sep) (c # cs))
      else (case split_first sep cs of
              None \<Rightarrow> None
            | Some (b, a) \<Rightarrow> Some (c # b, a)))"

definition split1 :: "string \<Rightarrow> string \<Rightarrow> string list" where
  \<comment> \<open>\<^verbatim>\<open>s.split(sep, maxsplit=1)\<close>, for the non-empty literal separators of the source\<close>
  "split1 s sep = (case split_first sep s of None \<Rightarrow> [s] | Some (b, a) \<Rightarrow> [b, a])"

definition isspace :: "char \<Rightarrow> bool" where
  \<comment> \<open>\<^verbatim>\<open>str.isspace\<close> on the code points below 256\<close>
  "isspace c = (of_char c \<in> {9, 10, 11, 12, 13, 28, 29, 30, 31, 32, 133, 160 :: nat})"

definition strip :: "string \<Rightarrow> string" where
  \<comment> \<open>\<^verbatim>\<open>s.strip()\<close>\<close>
  "strip s = rev (dropWhile isspace (rev (dropWhile isspace s)))"

fun str_nat :: "nat \<Rightarrow> string" where
  \<comment> \<open>\<^verbatim>\<open>str(pos)\<close> for a position: its decimal digits\<close>
  "str_nat n =
     (if n < 10 then [char_of (48 + n)]
      else str_nat (n div 10) @ [char_of (48 + n mod 10)])"

declare str_nat.simps [simp del]

section \<open>Items\<close>

text \<open>
  An item is a domain object (a manga, a list). The engine reads its \<^verbatim>\<open>id\<close>, prints it
  with \<^verbatim>\<open>str\<close> and, in \<^verbatim>\<open>MangaDexCommand.prompt\<close>, tries \<^verbatim>\<open>iter\<close> on it:
  \<open>item_iter\<close> is \<open>None\<close> when \<^verbatim>\<open>iter(item)\<close> raises \<^verbatim>\<open>TypeError\<close>.
\<close>

datatype item = Item (item_id: string) (item_str: string) (item_iter: "item list option")

section \<open>Exceptions\<close>

datatype pyexc =
    IteratorEmpty
  | IndexError
  | UnboundLocalError
  | AttributeError
  | KeyError string
  | TypeError
  | OtherError string

section \<open>The paginator\<close>

datatype action = Next | Previous

record paginator =
  pg_items :: "item list"
  pg_limit :: nat
  pg_pos :: "nat option"

text \<open>
  Modelled from the spec: the class \<^verbatim>\<open>Paginator\<close> of \<^verbatim>\<open>cli/utils.py\<close> is not among the
  sources. The spec (4.1, 8) gives its contract: over a sequence and a page size \<open>N\<close>,
  \<^verbatim>\<open>next()\<close> returns the next page of up to \<open>N\<close> (position, item) pairs and \<^verbatim>\<open>previous()\<close>
  the page preceding the last one returned; both fail with \<^verbatim>\<open>IteratorEmpty\<close> when no
  further items exist in that direction, and \<^verbatim>\<open>previous()\<close> fails with an out-of-range
  condition before any page has been fetched. Positions are stable and, as in the
  spec's scenario (pages labelled 0,1 and 2,3), count the items of the source from 0.
  \<open>pg_pos\<close> is the index of the last page returned. The source sequence is a list.
  A page returned by \<^verbatim>\<open>next()\<close> holds at least one item, and \<^verbatim>\<open>previous()\<close> right after
  the first page fails with \<^verbatim>\<open>IteratorEmpty\<close>.
\<close>

definition page_of :: "item list \<Rightarrow> nat \<Rightarrow> nat \<Rightarrow> (nat \<times> item) list" where
  "page_of xs n k = map (\<lambda>i. (i, xs ! i)) [k * n ..< min (k * n + n) (length xs)]"

definition pg_next :: "paginator \<Rightarrow> pyexc + ((nat \<times> item) list \<times> paginator)" where
  "pg_next p =
     (let k = (case pg_pos p of None \<Rightarrow> 0 | Some c \<Rightarrow> c + 1);
          page = page_of (pg_items p) (pg_limit p) k
      in if page = [] then Inl IteratorEmpty
         else Inr (page, p\<lparr>pg_pos := Some k\<rparr>))"

definition pg_previous :: "paginator \<Rightarrow> pyexc + ((nat \<times> item) list \<times> paginator)" where
  "pg_previous p =
     (case pg_pos p of
        None \<Rightarrow> Inl IndexError
      | Some 0 \<Rightarrow> Inl IteratorEmpty
      | Some (Suc k) \<Rightarrow> Inr (page_of (pg_items p) (pg_limit p) k, p\<lparr>pg_pos := Some k\<rparr>))"

definition Paginator :: "item list \<Rightarrow> nat \<Rightarrow> paginator" where
  "Paginator iterator limit = \<lparr>pg_items = iterator, pg_limit = limit, pg_pos = None\<rparr>"

section \<open>The selection engine: \<^verbatim>\<open>BaseCommand\<close>\<close>

text \<open>
  What the engine does to the outside is recorded as a trace: every call of a paginator
  method, every message printed by \<^verbatim>\<open>_error\<close>, every call of a hook and every prompt
  displayed.
\<close>

datatype event =
    Fetch action
  | Report string
  | EmptyHook
  | PreviewHook item
  | Display string

text \<open>
  A command variant: whether \<^verbatim>\<open>preview()\<close> returns \<^verbatim>\<open>True\<close>, and the message that its
  \<^verbatim>\<open>on_empty_error\<close> hands to \<^verbatim>\<open>args_parser.error\<close> (\<open>None\<close> for the hook of
  \<^verbatim>\<open>BaseCommand\<close>, which is \<^verbatim>\<open>pass\<close>). \<^verbatim>\<open>args_parser.error\<close> terminates the whole command.
\<close>

record variant =
  preview :: bool
  on_empty_error :: "string option"

text \<open>
  The state of one prompt: the paginator and \<^verbatim>\<open>_text_choices\<close> of the command object,
  the local variables \<^verbatim>\<open>choices\<close> (a dict, in insertion order) and \<^verbatim>\<open>action\<close> (\<open>None\<close>
  while it is unbound) of \<^verbatim>\<open>prompt\<close>, and the trace.
\<close>

record state =
  paginator :: paginator
  text_choices :: string
  choices :: "(string \<times> item) list"
  action :: "action option"
  events :: "event list"

definition BaseCommand :: "item list \<Rightarrow> nat \<Rightarrow> state" where
  "BaseCommand iterator limit =
     \<lparr>paginator = Paginator iterator limit, text_choices = [], choices = [],
      action = None, events = []\<rparr>"

definition log :: "event \<Rightarrow> state \<Rightarrow> state" where
  "log e s = s\<lparr>events := events s @ [e]\<rparr>"

definition error_print :: "string \<Rightarrow> state \<Rightarrow> state" where
  \<comment> \<open>\<^verbatim>\<open>_error(message)\<close> with \<^verbatim>\<open>exit=False\<close>\<close>
  "error_print message s = log (Report message) s"

fun insert_page ::
  "(nat \<times> item) list \<Rightarrow> (string \<times> item) list \<Rightarrow> string \<Rightarrow> (string \<times> item) list \<times> string"
where
  "insert_page [] ch text = (ch, text)"
| "insert_page ((pos, it) # rest) ch text =
     insert_page rest (AList.update (str_nat pos) it ch)
       (text @ ''('' @ str_nat pos @ ''). '' @ item_str it @ [CHR 0x0A])"

definition insert_choices :: "action \<Rightarrow> state \<Rightarrow> pyexc option \<times> state" where
  \<comment> \<open>\<^verbatim>\<open>_insert_choices(choices, action)\<close>: the exception raised, if any, and the state\<close>
  "insert_choices a s =
     (let s1 = log (Fetch a) s in
      case (case a of Next \<Rightarrow> pg_next | Previous \<Rightarrow> pg_previous) (paginator s1) of
        Inl e \<Rightarrow> (Some e, s1)
      | Inr (page, p) \<Rightarrow>
          (case insert_page page (choices s1) [] of
             (ch, text) \<Rightarrow>
               (None, s1\<lparr>paginator := p, choices := ch, text_choices := text\<rparr>)))"

definition print_choices :: "state \<Rightarrow> state" where
  \<comment> \<open>\<^verbatim>\<open>_print_choices()\<close>: the trace keeps the choices shown\<close>
  "print_choices s = log (Display (text_choices s)) s"

subsection \<open>The interactive loop\<close>

datatype step = Continue state | Return item | Raise pyexc state

definition fetch_after :: "state \<Rightarrow> step" where
  \<comment> \<open>lines 189-194: the fetch that follows the \<^verbatim>\<open>if/elif/else\<close> chain\<close>
  "fetch_after s =
     (case action s of
        None \<Rightarrow> Raise UnboundLocalError s
      | Some a \<Rightarrow>
          (case insert_choices a s of
             (None, s') \<Rightarrow> Continue s'
           | (Some IteratorEmpty, s') \<Rightarrow> Continue (error_print ''There are no more results'' s')
           | (Some IndexError, s') \<Rightarrow>
               Continue (error_print ''Choices are out of range, try again'' s')
           | (Some e, s') \<Rightarrow> Raise e s'))"

definition dispatch :: "variant \<Rightarrow> string \<Rightarrow> state \<Rightarrow> step" where
  \<comment> \<open>lines 163-194: one pass of the loop body with \<^verbatim>\<open>answer\<close> bound to a line\<close>
  "dispatch v answer s =
     (if startswith answer ''preview'' \<and> preview v then
        (case split1 answer ''preview'' of
           _ # rest # _ \<Rightarrow>
             (case map_of (choices s) (strip rest) of
                None \<Rightarrow> Continue (error_print ''Invalid choice, try again'' s)
              | Some it \<Rightarrow> Continue (log (PreviewHook it) s))
         | _ \<Rightarrow> Raise IndexError s)
      else if startswith answer ''next'' then fetch_after (s\<lparr>action := Some Next\<rparr>)
      else if startswith answer ''previous'' then fetch_after (s\<lparr>action := Some Previous\<rparr>)
      else
        (case map_of (choices s) answer of
           None \<Rightarrow> fetch_after (error_print ''Invalid choice, try again'' s)
         | Some it \<Rightarrow> Return it))"

datatype ending = Exhausted | Abort string | Raised pyexc

datatype answer =
    AnsNone
  | AnsItem item
  | AnsGen "item list" ending
  | AnsAbort string
  | AnsRaise pyexc
  | AnsBlocked

text \<open>
  The answers of \<^verbatim>\<open>BaseCommand.prompt\<close>: \<^verbatim>\<open>None\<close>; an item; a generator, given by the
  items it yields when it is consumed to its end and by how it ends (it is exhausted,
  \<^verbatim>\<open>args_parser.error\<close> terminates the command with a message, or an exception leaves
  it); the command terminated by \<^verbatim>\<open>args_parser.error\<close>; an uncaught exception; and, the
  lines of input being a list here, the prompt waiting for a line that does not come.
\<close>

fun prompt_loop :: "variant \<Rightarrow> string list \<Rightarrow> state \<Rightarrow> answer \<times> state" where
  "prompt_loop v [] s = (AnsBlocked, print_choices s)"
| "prompt_loop v (line # lines) s =
     (case dispatch v line (print_choices s) of
        Continue s' \<Rightarrow> prompt_loop v lines s'
      | Return it \<Rightarrow> (AnsItem it, print_choices s)
      | Raise e s' \<Rightarrow> (AnsRaise e, s'))"

subsection \<open>Direct positional mode: \<^verbatim>\<open>_return_from\<close>\<close>

datatype gen_step = Stop ending | Again

definition return_from_step :: "string \<Rightarrow> state \<Rightarrow> item list \<times> gen_step \<times> state" where
  \<comment> \<open>lines 126-145: one pass of the loop body, with the items it yields\<close>
  "return_from_step pos s =
     (case map_of (choices s) pos of
        Some result \<Rightarrow> ([result], Stop Exhausted, s)
      | None \<Rightarrow>
          (let ys = (if pos = ''*'' then map snd (choices s) else []) in
           case insert_choices Next s of
             (None, s') \<Rightarrow> (ys, Again, s')
           | (Some IteratorEmpty, s') \<Rightarrow> (ys, Stop (Abort ''There are no more results''), s')
           | (Some IndexError, s') \<Rightarrow>
               (ys, Again, error_print ''Choices are out of range, try again'' s')
           | (Some e, s') \<Rightarrow> (ys, Stop (Raised e), s')))"

definition pg_seen :: "paginator \<Rightarrow> nat" where
  "pg_seen p = (case pg_pos p of None \<Rightarrow> 0 | Some c \<Rightarrow> (c + 1) * pg_limit p)"

definition pages_left :: "state \<Rightarrow> nat" where
  "pages_left s = length (pg_items (paginator s)) - pg_seen (paginator s)"

lemma pg_next_not_IndexError: "pg_next p \<noteq> Inl IndexError"
  by (simp add: pg_next_def Let_def)

lemma pg_next_pages_left:
  assumes "pg_next p = Inr (page, p')"
  shows "length (pg_items p') - pg_seen p' < length (pg_items p) - pg_seen p"
proof -
  define k where "k = (case pg_pos p of None \<Rightarrow> 0 | Some c \<Rightarrow> c + 1)"
  from assms have ne: "page_of (pg_items p) (pg_limit p) k \<noteq> []"
    and p': "p' = p\<lparr>pg_pos := Some k\<rparr>"
    by (auto simp: pg_next_def Let_def k_def split: if_splits)
  from ne have lt: "k * pg_limit p < length (pg_items p)" and pos: "0 < pg_limit p"
    by (auto simp: page_of_def)
  have seen: "pg_seen p \<le> k * pg_limit p"
    by (simp add: pg_seen_def k_def split: option.splits)
  have "pg_seen p' = k * pg_limit p + pg_limit p"
    by (simp add: p' pg_seen_def)
  with lt pos seen show ?thesis by (simp add: p')
qed

lemma return_from_step_Again:
  assumes "return_from_step pos s = (ys, Again, s')"
  shows "pages_left s' < pages_left s"
proof -
  from assms obtain page p where "pg_next (paginator s) = Inr (page, p)" and "paginator s' = p"
    using pg_next_not_IndexError [of "paginator s"]
    by (auto simp: return_from_step_def insert_choices_def log_def Let_def error_print_def
          split: option.splits sum.splits prod.splits pyexc.splits if_splits)
  then show ?thesis
    using pg_next_pages_left [of "paginator s" page p] by (simp add: pages_left_def)
qed

function return_from_loop :: "string \<Rightarrow> state \<Rightarrow> item list \<times> ending \<times> state" where
  "return_from_loop pos s =
     (case return_from_step pos s of
        (ys, Stop e, s') \<Rightarrow> (ys, e, s')
      | (ys, Again, s') \<Rightarrow>
          (case return_from_loop pos s' of (zs, e, s'') \<Rightarrow> (ys @ zs, e, s'')))"
  by pat_completeness auto
termination
  by (relation "measure (\<lambda>(pos, s). pages_left s)") (auto dest: return_from_step_Again [OF sym])

declare return_from_loop.simps [simp del]

definition empty_hook :: "variant \<Rightarrow> ending" where
  \<comment> \<open>how \<^verbatim>\<open>self.on_empty_error()\<close> ends: it returns, or it terminates the command\<close>
  "empty_hook v = (case on_empty_error v of None \<Rightarrow> Exhausted | Some m \<Rightarrow> Abort m)"

definition return_from :: "variant \<Rightarrow> string \<Rightarrow> state \<Rightarrow> item list \<times> ending \<times> state" where
  \<comment> \<open>the generator \<^verbatim>\<open>_return_from(pos)\<close>, consumed to its end\<close>
  "return_from v pos s0 =
     (let s = s0\<lparr>choices := []\<rparr> in
      case insert_choices Next s of
        (None, s') \<Rightarrow> return_from_loop pos s'
      | (Some IteratorEmpty, s') \<Rightarrow> ([], empty_hook v, log EmptyHook s')
      | (Some e, s') \<Rightarrow> ([], Raised e, s'))"

subsection \<open>\<^verbatim>\<open>BaseCommand.prompt\<close>\<close>

definition prompt :: "variant \<Rightarrow> string option \<Rightarrow> string list \<Rightarrow> state \<Rightarrow> answer \<times> state" where
  \<comment> \<open>\<^verbatim>\<open>if input_pos\<close> holds for a non-empty string\<close>
  "prompt v input_pos lines s0 =
     (let s = s0\<lparr>choices := [], action := None\<rparr> in
      if input_pos \<noteq> None \<and> input_pos \<noteq> Some [] then
        (case return_from v (the input_pos) s of (ys, e, s') \<Rightarrow> (AnsGen ys e, s'))
      else
        (case insert_choices Next s of
           (None, s') \<Rightarrow> prompt_loop v lines s'
         | (Some IteratorEmpty, s') \<Rightarrow>
             (case empty_hook v of
                Abort m \<Rightarrow> (AnsAbort m, log EmptyHook s')
              | _ \<Rightarrow> (AnsNone, log EmptyHook s'))
         | (Some e, s') \<Rightarrow> (AnsRaise e, s')))"

section \<open>\<^verbatim>\<open>MangaDexCommand\<close>\<close>

datatype ids =
    IdList "string list"
  | IdGen "string list" ending
  | IdAbort string
  | IdRaise pyexc
  | IdBlocked

fun iter_answer :: "item list \<Rightarrow> string list \<Rightarrow> string list" where
  \<comment> \<open>the ids that \<^verbatim>\<open>iter_answer()\<close> yields over the items of \<^verbatim>\<open>answer\<close>, from the list \<^verbatim>\<open>ids\<close>\<close>
  "iter_answer [] ids = []"
| "iter_answer (it # rest) ids =
     (if item_id it \<notin> set ids then item_id it # iter_answer rest (ids @ [item_id it])
      else iter_answer rest ids)"

definition ids_of_answer :: "answer \<Rightarrow> ids" where
  \<comment> \<open>lines 203-220: what \<^verbatim>\<open>MangaDexCommand.prompt\<close> makes of the answer of \<^verbatim>\<open>super().prompt\<close>\<close>
  "ids_of_answer a =
     (case a of
        AnsGen ys e \<Rightarrow> IdGen (iter_answer ys []) e
      | AnsItem it \<Rightarrow>
          (case item_iter it of
             None \<Rightarrow> IdList [item_id it]
           | Some els \<Rightarrow> IdGen (iter_answer els []) Exhausted)
      | AnsNone \<Rightarrow> IdRaise AttributeError
      | AnsAbort m \<Rightarrow> IdAbort m
      | AnsRaise e \<Rightarrow> IdRaise e
      | AnsBlocked \<Rightarrow> IdBlocked)"

definition MangaDexCommand_prompt ::
  "variant \<Rightarrow> string option \<Rightarrow> string list \<Rightarrow> state \<Rightarrow> ids \<times> state"
where
  "MangaDexCommand_prompt v input_pos lines s =
     (case prompt v input_pos lines s of (a, s') \<Rightarrow> (ids_of_answer a, s'))"

section \<open>Labels\<close>

text \<open>The labels of the choices are the decimal numerals of the positions.\<close>

definition isdigit :: "char \<Rightarrow> bool" where
  "isdigit c = (48 \<le> (of_char c :: nat) \<and> (of_char c :: nat) \<le> 57)"

lemma isdigit_char_of: "d < 10 \<Longrightarrow> isdigit (char_of (48 + d :: nat))"
  by (simp add: isdigit_def)

lemma str_nat_digits: "list_all isdigit (str_nat n)"
proof (induction n rule: str_nat.induct)
  case (1 n)
  show ?case
  proof (cases "n < 10")
    case True
    then show ?thesis by (subst str_nat.simps) (simp add: isdigit_char_of)
  next
    case False
    with 1 show ?thesis by (subst str_nat.simps) (simp add: isdigit_char_of)
  qed
qed

lemma str_nat_not_Nil: "str_nat n \<noteq> []"
  by (subst str_nat.simps) simp

lemma char_of_digit_inj:
  assumes "a < 10" "b < 10" "char_of (48 + a :: nat) = char_of (48 + b :: nat)"
  shows "a = b"
proof -
  from assms(3) have "(of_char (char_of (48 + a)) :: nat) = of_char (char_of (48 + b))"
    by simp
  with assms(1,2) show ?thesis by simp
qed

lemma length_str_nat_ge10: "10 \<le> n \<Longrightarrow> 2 \<le> length (str_nat n)"
  by (subst str_nat.simps) (simp add: Suc_le_eq str_nat_not_Nil)

lemma str_nat_inj: "str_nat m = str_nat n \<Longrightarrow> m = n"
proof (induction m arbitrary: n rule: str_nat.induct)
  case (1 m)
  show ?case
  proof (cases "m < 10")
    case m: True
    show ?thesis
    proof (cases "n < 10")
      case True
      with m "1.prems" show ?thesis
        by (simp add: str_nat.simps [of m] str_nat.simps [of n] char_of_digit_inj)
    next
      case False
      then have "2 \<le> length (str_nat n)" by (simp add: length_str_nat_ge10)
      moreover from m have "length (str_nat m) = 1" by (simp add: str_nat.simps [of m])
      ultimately show ?thesis using "1.prems" by simp
    qed
  next
    case m: False
    show ?thesis
    proof (cases "n < 10")
      case True
      then have "length (str_nat n) = 1" by (simp add: str_nat.simps [of n])
      moreover from m have "2 \<le> length (str_nat m)" by (simp add: length_str_nat_ge10)
      ultimately show ?thesis using "1.prems" by simp
    next
      case False
      with m "1.prems" have eq: "str_nat (m div 10) = str_nat (n div 10)"
        and ch: "char_of (48 + m mod 10) = char_of (48 + n mod 10)"
        by (simp_all add: str_nat.simps [of m] str_nat.simps [of n])
      from "1.IH" [OF m eq] have "m div 10 = n div 10" .
      moreover from ch have "m mod 10 = n mod 10" by (auto intro: char_of_digit_inj)
      ultimately show ?thesis by (metis div_mult_mod_eq)
    qed
  qed
qed

definition is_label :: "string \<Rightarrow> bool" where
  "is_label l = (l \<noteq> [] \<and> list_all isdigit l)"

lemma is_label_str_nat: "is_label (str_nat n)"
  by (simp add: is_label_def str_nat_digits str_nat_not_Nil)

lemma is_label_hd: "is_label l \<Longrightarrow> \<exists>c cs. l = c # cs \<and> isdigit c"
  by (cases l) (simp_all add: is_label_def)

lemma label_not_command:
  assumes "is_label l"
  shows "\<not> startswith l ''preview''" "\<not> startswith l ''next''" "\<not> startswith l ''previous''"
    "l \<noteq> ''*''"
  using is_label_hd [OF assms] by (auto simp: startswith_def isdigit_def)

section \<open>Observing a run\<close>

definition fetches :: "event list \<Rightarrow> action list" where
  \<comment> \<open>the calls of paginator methods in a trace\<close>
  "fetches es = concat (map (\<lambda>e. case e of Fetch a \<Rightarrow> [a] | _ \<Rightarrow> []) es)"

definition reports :: "event list \<Rightarrow> string list" where
  \<comment> \<open>the messages printed by \<^verbatim>\<open>_error\<close> in a trace\<close>
  "reports es = concat (map (\<lambda>e. case e of Report m \<Rightarrow> [m] | _ \<Rightarrow> []) es)"

fun step_state :: "step \<Rightarrow> state option" where
  "step_state (Continue s) = Some s"
| "step_state (Raise e s) = Some s"
| "step_state (Return it) = None"

fun selection :: "answer \<Rightarrow> item list" where
  \<comment> \<open>the items that an answer of \<^verbatim>\<open>prompt\<close> gives to its caller\<close>
  "selection (AnsItem it) = [it]"
| "selection (AnsGen ys e) = ys"
| "selection _ = []"

subsection \<open>Sample commands\<close>

definition manga :: "string \<Rightarrow> string \<Rightarrow> item" where
  \<comment> \<open>an item that is not iterable\<close>
  "manga i title = Item i title None"

definition base_variant :: variant where
  \<comment> \<open>\<^verbatim>\<open>BaseCommand\<close>: no preview, \<^verbatim>\<open>on_empty_error\<close> is \<^verbatim>\<open>pass\<close>\<close>
  "base_variant = \<lparr>preview = False, on_empty_error = None\<rparr>"

definition manga_variant :: variant where
  \<comment> \<open>a \<^verbatim>\<open>MangaCommand\<close>: preview, and an \<^verbatim>\<open>on_empty_error\<close> that calls \<^verbatim>\<open>args_parser.error\<close>\<close>
  "manga_variant = \<lparr>preview = True, on_empty_error = Some ''Manga search results are empty''\<rparr>"

definition five :: "item list" where
  "five = [manga ''a'' ''A'', manga ''b'' ''B'', manga ''c'' ''C'', manga ''d'' ''D'',
           manga ''e'' ''E'']"

section \<open>Invalid input\<close>

text \<open>
  C3. A line that is no label and no command is reported as an invalid choice, and the
  prompt should then wait for the next line with nothing fetched and the choices
  unchanged. In the source the \<^verbatim>\<open>except KeyError\<close> branch of line 183 has no \<^verbatim>\<open>continue\<close>
  (the preview branch of line 174 has one), so control reaches the fetch of line 190:
  with \<^verbatim>\<open>action\<close> unbound the prompt ends in \<^verbatim>\<open>UnboundLocalError\<close>, and after a
  navigation command the last action is repeated and a page is fetched.
\<close>

theorem invalid_choice_reaches_fetch:
  "fst (prompt base_variant None [''x''] (BaseCommand five 2)) = AnsRaise UnboundLocalError \<and>
   fetches (events (snd (prompt base_variant None [''next''] (BaseCommand five 2)))) = [Next, Next] \<and>
   map fst (choices (snd (prompt base_variant None [''next''] (BaseCommand five 2))))
     = [''0'', ''1'', ''2'', ''3''] \<and>
   reports (events (snd (prompt base_variant None [''next'', ''x''] (BaseCommand five 2))))
     = [''Invalid choice, try again''] \<and>
   fetches (events (snd (prompt base_variant None [''next'', ''x''] (BaseCommand five 2))))
     = [Next, Next, Next] \<and>
   map fst (choices (snd (prompt base_variant None [''next'', ''x''] (BaseCommand five 2))))
     = [''0'', ''1'', ''2'', ''3'', ''4'']"
  by code_simp

section \<open>The choices of a prompt\<close>

definition labelled :: "item list \<Rightarrow> (string \<times> item) list" where
  \<comment> \<open>every item of the source under the label of its position\<close>
  "labelled xs = map (\<lambda>i. (str_nat i, xs ! i)) [0..<length xs]"

definition consistent :: "state \<Rightarrow> bool" where
  \<comment> \<open>every choice is an item of the source under the label of its position\<close>
  "consistent s = (set (choices s) \<subseteq> set (labelled (pg_items (paginator s))))"

lemma split1_startswith:
  assumes "startswith s sep" and "sep \<noteq> []"
  shows "split1 s sep = [[], drop (length sep) s]"
proof (cases s)
  case Nil
  with assms show ?thesis by (simp add: startswith_def)
next
  case (Cons c cs)
  with assms show ?thesis by (simp add: split1_def)
qed

lemma labelled_iff:
  "(l, it) \<in> set (labelled xs) \<longleftrightarrow> (\<exists>i<length xs. l = str_nat i \<and> it = xs ! i)"
  by (auto simp: labelled_def)

lemma labelled_unique:
  assumes "(l, a) \<in> set (labelled xs)" and "(l, b) \<in> set (labelled xs)"
  shows "a = b"
  using assms by (auto simp: labelled_iff dest: str_nat_inj)

lemma labelled_is_label: "(l, it) \<in> set (labelled xs) \<Longrightarrow> is_label l"
  by (auto simp: labelled_iff is_label_str_nat)

lemma page_of_subset: "(i, it) \<in> set (page_of xs n k) \<Longrightarrow> (str_nat i, it) \<in> set (labelled xs)"
  by (auto simp: page_of_def labelled_iff)

lemma set_update_subset: "set (AList.update k v al) \<subseteq> insert (k, v) (set al)"
  by (induction al) auto

lemma insert_page_grows:
  assumes "set ch \<subseteq> set (labelled xs)"
    and "\<And>i it. (i, it) \<in> set page \<Longrightarrow> (str_nat i, it) \<in> set (labelled xs)"
  shows "set (fst (insert_page page ch t)) \<subseteq> set (labelled xs) \<and>
         map_of ch \<subseteq>\<^sub>m map_of (fst (insert_page page ch t))"
  using assms
proof (induction page arbitrary: ch t)
  case Nil
  then show ?case by simp
next
  case (Cons e page)
  obtain i it where e: "e = (i, it)" by (cases e)
  let ?ch = "AList.update (str_nat i) it ch"
  have new: "(str_nat i, it) \<in> set (labelled xs)"
    using Cons.prems(2) [of i it] by (simp add: e)
  have sub: "set ?ch \<subseteq> set (labelled xs)"
    using set_update_subset [of "str_nat i" it ch] Cons.prems(1) new by auto
  have "map_of ch (str_nat i) = None \<or> map_of ch (str_nat i) = Some it"
  proof (cases "map_of ch (str_nat i)")
    case None
    then show ?thesis by simp
  next
    case (Some b)
    then have "(str_nat i, b) \<in> set (labelled xs)"
      using Cons.prems(1) by (auto dest: map_of_SomeD)
    then have "b = it" using new by (rule labelled_unique)
    with Some show ?thesis by simp
  qed
  then have le: "map_of ch \<subseteq>\<^sub>m map_of ?ch"
    by (auto simp: update_conv' map_le_def)
  have "set (fst (insert_page page ?ch (t @ ''('' @ str_nat i @ ''). '' @ item_str it @ [CHR 0x0A])))
          \<subseteq> set (labelled xs) \<and>
        map_of ?ch \<subseteq>\<^sub>m
          map_of (fst (insert_page page ?ch (t @ ''('' @ str_nat i @ ''). '' @ item_str it @ [CHR 0x0A])))"
    by (rule Cons.IH [OF sub]) (simp add: Cons.prems(2))
  with le show ?case by (auto simp: e intro: map_le_trans)
qed

lemma paginate_page:
  assumes "(case a of Next \<Rightarrow> pg_next | Previous \<Rightarrow> pg_previous) p = Inr (page, p')"
  shows "page = page_of (pg_items p) (pg_limit p) (the (pg_pos p')) \<and> pg_items p' = pg_items p \<and>
         pg_limit p' = pg_limit p"
  using assms
  by (cases a) (auto simp: pg_next_def pg_previous_def Let_def split: if_splits option.splits nat.splits)

lemma insert_choices_events:
  "insert_choices a s = (r, s') \<Longrightarrow> events s' = events s @ [Fetch a]"
  by (auto simp: insert_choices_def log_def Let_def split: sum.splits prod.splits)

lemma insert_choices_action:
  "insert_choices a s = (r, s') \<Longrightarrow> action s' = action s"
  by (auto simp: insert_choices_def log_def Let_def split: sum.splits prod.splits)

lemma insert_choices_failed:
  "insert_choices a s = (Some e, s') \<Longrightarrow> s' = log (Fetch a) s"
  by (auto simp: insert_choices_def Let_def split: sum.splits prod.splits)

lemma insert_choices_exc:
  assumes "insert_choices a s = (Some e, s')"
  shows "e = IteratorEmpty \<or> e = IndexError"
  using assms
  by (cases a)
    (auto simp: insert_choices_def log_def Let_def pg_next_def pg_previous_def
      split: sum.splits prod.splits option.splits nat.splits if_splits)

lemma insert_choices_grows:
  assumes "consistent s" and "insert_choices a s = (r, s')"
  shows "consistent s' \<and> map_of (choices s) \<subseteq>\<^sub>m map_of (choices s') \<and>
         pg_items (paginator s') = pg_items (paginator s)"
proof (cases "(case a of Next \<Rightarrow> pg_next | Previous \<Rightarrow> pg_previous) (paginator s)")
  case (Inl e)
  with assms show ?thesis
    by (auto simp: insert_choices_def log_def Let_def consistent_def)
next
  case (Inr b)
  obtain page p where b: "b = (page, p)" by (cases b)
  from Inr b have pg: "page = page_of (pg_items (paginator s)) (pg_limit (paginator s)) (the (pg_pos p))"
    and items: "pg_items p = pg_items (paginator s)"
    using paginate_page [of a "paginator s" page p] by simp_all
  have grow: "set (fst (insert_page page (choices s) [])) \<subseteq> set (labelled (pg_items (paginator s))) \<and>
      map_of (choices s) \<subseteq>\<^sub>m map_of (fst (insert_page page (choices s) []))"
    using assms(1) unfolding consistent_def
    by (rule insert_page_grows) (simp add: pg page_of_subset)
  from assms(2) Inr b have s': "choices s' = fst (insert_page page (choices s) [])" "paginator s' = p"
    by (auto simp: insert_choices_def log_def Let_def split: prod.splits)
  with grow items show ?thesis by (simp add: consistent_def)
qed

lemma consistent_log [simp]: "consistent (log e s) = consistent s"
  by (simp add: consistent_def log_def)

lemma choices_log [simp]: "choices (log e s) = choices s"
  by (simp add: log_def)

lemma paginator_log [simp]: "paginator (log e s) = paginator s"
  by (simp add: log_def)

lemma action_log [simp]: "action (log e s) = action s"
  by (simp add: log_def)

lemma events_log [simp]: "events (log e s) = events s @ [e]"
  by (simp add: log_def)

lemma fetch_after_grows:
  assumes "consistent s" and "step_state (fetch_after s) = Some s'"
  shows "consistent s' \<and> map_of (choices s) \<subseteq>\<^sub>m map_of (choices s') \<and>
         pg_items (paginator s') = pg_items (paginator s)"
proof (cases "action s")
  case None
  with assms show ?thesis by (simp add: fetch_after_def)
next
  case (Some a)
  obtain r s1 where ic: "insert_choices a s = (r, s1)" by (cases "insert_choices a s")
  note g = insert_choices_grows [OF assms(1) ic]
  from assms(2) Some ic have "s' = s1 \<or> (\<exists>m. s' = error_print m s1)"
    by (auto simp: fetch_after_def split: option.splits pyexc.splits)
  with g show ?thesis by (auto simp: error_print_def)
qed

lemma dispatch_grows:
  assumes "consistent s" and "step_state (dispatch v line s) = Some s'"
  shows "consistent s' \<and> map_of (choices s) \<subseteq>\<^sub>m map_of (choices s') \<and>
         pg_items (paginator s') = pg_items (paginator s)"
proof -
  consider (preview) "startswith line ''preview'' \<and> preview v"
    | (nav) a where "step_state (fetch_after (s\<lparr>action := Some a\<rparr>)) = Some s'"
    | (invalid) "step_state (fetch_after (error_print ''Invalid choice, try again'' s)) = Some s'"
    using assms(2) by (auto simp: dispatch_def split: if_splits option.splits)
  then show ?thesis
  proof cases
    case preview
    with assms(2) have "\<exists>e. s' = log e s"
      by (auto simp: dispatch_def error_print_def split1_startswith split: option.splits)
    with assms(1) show ?thesis by auto
  next
    case (nav a)
    have "consistent (s\<lparr>action := Some a\<rparr>)" using assms(1) by (simp add: consistent_def)
    from fetch_after_grows [OF this nav] show ?thesis by simp
  next
    case invalid
    have "consistent (error_print ''Invalid choice, try again'' s)"
      using assms(1) by (simp add: error_print_def)
    from fetch_after_grows [OF this invalid] show ?thesis by (simp add: error_print_def)
  qed
qed

section \<open>The interactive loop\<close>

lemma choices_print_choices [simp]: "choices (print_choices s) = choices s"
  by (simp add: print_choices_def)

lemma consistent_print_choices [simp]: "consistent (print_choices s) = consistent s"
  by (simp add: print_choices_def)

lemma prompt_loop_resume:
  assumes "prompt_loop v lines s = (AnsBlocked, s1)"
  shows "\<exists>s2. s1 = print_choices s2 \<and> (\<forall>rest. prompt_loop v (lines @ rest) s = prompt_loop v rest s2)"
  using assms
proof (induction lines arbitrary: s)
  case Nil
  then show ?case by auto
next
  case (Cons line lines)
  then show ?case by (cases "dispatch v line (print_choices s)") auto
qed

lemma prompt_loop_grows:
  assumes "consistent s" and "prompt_loop v lines s = (a, s1)"
  shows "consistent s1 \<and> map_of (choices s) \<subseteq>\<^sub>m map_of (choices s1)"
  using assms
proof (induction lines arbitrary: s)
  case Nil
  then show ?case by auto
next
  case (Cons line lines)
  have c: "consistent (print_choices s)" using Cons.prems(1) by simp
  show ?case
  proof (cases "dispatch v line (print_choices s)")
    case (Continue s')
    then have "step_state (dispatch v line (print_choices s)) = Some s'" by simp
    from dispatch_grows [OF c this]
    have s': "consistent s'" "map_of (choices s) \<subseteq>\<^sub>m map_of (choices s')" by simp_all
    from Cons.prems(2) Continue have "prompt_loop v lines s' = (a, s1)" by simp
    from Cons.IH [OF s'(1) this] s'(2) show ?thesis by (auto intro: map_le_trans)
  next
    case (Return it)
    with Cons.prems show ?thesis by auto
  next
    case (Raise e s')
    then have "step_state (dispatch v line (print_choices s)) = Some s'" by simp
    from dispatch_grows [OF c this] Cons.prems(2) Raise show ?thesis by auto
  qed
qed

lemma prompt_blocked:
  assumes "prompt v None lines s0 = (AnsBlocked, s)"
  shows "\<exists>s1. insert_choices Next (s0\<lparr>choices := [], action := None\<rparr>) = (None, s1) \<and>
              prompt_loop v lines s1 = (AnsBlocked, s) \<and> consistent s1 \<and>
              (\<forall>rest. prompt v None (lines @ rest) s0 = prompt_loop v (lines @ rest) s1)"
proof -
  let ?s = "s0\<lparr>choices := [], action := None\<rparr>"
  obtain r s1 where ic: "insert_choices Next ?s = (r, s1)" by (cases "insert_choices Next ?s")
  have r: "r = None"
  proof (cases r)
    case (Some e)
    with assms ic show ?thesis
      by (auto simp: prompt_def Let_def split: pyexc.splits ending.splits)
  qed simp
  have "consistent ?s" by (simp add: consistent_def)
  from insert_choices_grows [OF this ic] have "consistent s1" by simp
  with assms ic r show ?thesis by (simp add: prompt_def Let_def)
qed

lemma dispatch_label:
  assumes "consistent s" and "map_of (choices s) l = Some it"
  shows "dispatch v l s = Return it"
proof -
  from assms have "(l, it) \<in> set (labelled (pg_items (paginator s)))"
    by (auto simp: consistent_def dest: map_of_SomeD)
  then have "is_label l" by (rule labelled_is_label)
  from label_not_command(1-3) [OF this] assms(2) show ?thesis
    by (simp add: dispatch_def)
qed

text \<open>
  C4. When the prompt waits for input and the line entered is a label of the choices
  accumulated so far, the prompt returns the item under that label, and the state is
  the one the prompt was waiting in: its trace has no further fetch, whatever lines
  would follow.
\<close>

theorem label_returns_item:
  assumes "prompt v None lines s0 = (AnsBlocked, s)"
    and "map_of (choices s) l = Some it"
  shows "prompt v None (lines @ l # rest) s0 = (AnsItem it, s)"
proof -
  from prompt_blocked [OF assms(1)] obtain s1 where
    loop: "prompt_loop v lines s1 = (AnsBlocked, s)" and c1: "consistent s1" and
    eq: "prompt v None (lines @ l # rest) s0 = prompt_loop v (lines @ l # rest) s1"
    by blast
  from prompt_loop_resume [OF loop] obtain s2 where
    s: "s = print_choices s2" and
    resume: "prompt_loop v (lines @ l # rest) s1 = prompt_loop v (l # rest) s2"
    by blast
  from prompt_loop_grows [OF c1 loop] have "consistent s" by simp
  from dispatch_label [OF this assms(2)] have "dispatch v l (print_choices s2) = Return it"
    by (simp add: s)
  then have "prompt_loop v (l # rest) s2 = (AnsItem it, s)" by (simp add: s)
  with eq resume show ?thesis by simp
qed

theorem label_returns_item_witness:
  "prompt base_variant None ([''next''] @ ''1'' # [''next'']) (BaseCommand five 2)
     = (AnsItem (manga ''b'' ''B''), snd (prompt base_variant None [''next''] (BaseCommand five 2))) \<and>
   fetches (events (snd (prompt base_variant None [''next''] (BaseCommand five 2)))) = [Next, Next]"
proof -
  have a: "fst (prompt base_variant None [''next''] (BaseCommand five 2)) = AnsBlocked"
    by code_simp
  have b: "map_of (choices (snd (prompt base_variant None [''next''] (BaseCommand five 2)))) ''1''
             = Some (manga ''b'' ''B'')"
    by code_simp
  have c: "fetches (events (snd (prompt base_variant None [''next''] (BaseCommand five 2)))) = [Next, Next]"
    by code_simp
  from a have "prompt base_variant None [''next''] (BaseCommand five 2)
      = (AnsBlocked, snd (prompt base_variant None [''next''] (BaseCommand five 2)))"
    by (metis prod.collapse)
  from label_returns_item [OF this b] c show ?thesis by simp
qed

text \<open>
  C7. Within one interactive prompt the choices only grow: whatever lines follow a
  state in which the prompt waits for input (navigation, preview, lines that are
  reported), every label bound then is still bound to the same item afterwards.
\<close>

theorem choices_only_grow:
  assumes "prompt v None lines s0 = (AnsBlocked, s)"
  shows "map_of (choices s) \<subseteq>\<^sub>m map_of (choices (snd (prompt v None (lines @ rest) s0)))"
proof -
  from prompt_blocked [OF assms(1)] obtain s1 where
    loop: "prompt_loop v lines s1 = (AnsBlocked, s)" and c1: "consistent s1" and
    eq: "prompt v None (lines @ rest) s0 = prompt_loop v (lines @ rest) s1"
    by blast
  from prompt_loop_resume [OF loop] obtain s2 where
    s: "s = print_choices s2" and
    resume: "prompt_loop v (lines @ rest) s1 = prompt_loop v rest s2"
    by blast
  from prompt_loop_grows [OF c1 loop] have "consistent s2" by (simp add: s)
  from prompt_loop_grows [OF this, of v rest] have
    "map_of (choices s2) \<subseteq>\<^sub>m map_of (choices (snd (prompt_loop v rest s2)))"
    by (cases "prompt_loop v rest s2") simp
  with eq resume show ?thesis by (simp add: s)
qed


theorem choices_only_grow_witness:
  "map_of (choices (snd (prompt manga_variant None [''next''] (BaseCommand five 2)))) \<subseteq>\<^sub>m
     map_of (choices (snd (prompt manga_variant None
        ([''next''] @ [''x'', ''previous'', ''preview 9'', ''next'', ''next'', ''next''])
        (BaseCommand five 2)))) \<and>
   map fst (choices (snd (prompt manga_variant None [''next''] (BaseCommand five 2))))
     = [''0'', ''1'', ''2'', ''3'']"
proof -
  have a: "fst (prompt manga_variant None [''next''] (BaseCommand five 2)) = AnsBlocked"
    by code_simp
  have b: "map fst (choices (snd (prompt manga_variant None [''next''] (BaseCommand five 2))))
     = [''0'', ''1'', ''2'', ''3'']"
    by code_simp
  from a have "prompt manga_variant None [''next''] (BaseCommand five 2)
      = (AnsBlocked, snd (prompt manga_variant None [''next''] (BaseCommand five 2)))"
    by (metis prod.collapse)
  from choices_only_grow [OF this] b show ?thesis by simp
qed

section \<open>The commands of the interactive loop\<close>

lemma split1_preview:
  assumes "startswith line ''preview''"
  shows "split1 line ''preview'' = [[], drop 7 line]"
proof -
  have "length ''preview'' = 7" by simp
  with split1_startswith [OF assms] show ?thesis by (simp del: length_Cons list.size)
qed

lemma fetch_after_bound:
  assumes "action s = Some a"
  shows "\<exists>s' es. fetch_after s = Continue s' \<and> events s' = events s @ Fetch a # es \<and>
           set es \<subseteq> {Report ''There are no more results'',
                      Report ''Choices are out of range, try again''}"
proof -
  obtain r s1 where ic: "insert_choices a s = (r, s1)" by (cases "insert_choices a s")
  note ev = insert_choices_events [OF ic]
  show ?thesis
  proof (cases r)
    case None
    with assms ic ev show ?thesis by (simp add: fetch_after_def)
  next
    case (Some e)
    with ic have "e = IteratorEmpty \<or> e = IndexError" by (auto dest: insert_choices_exc)
    with Some assms ic ev show ?thesis by (auto simp: fetch_after_def error_print_def)
  qed
qed

lemma fetch_after_events:
  "step_state (fetch_after s) = Some s' \<Longrightarrow> \<exists>es. events s' = events s @ es"
proof (cases "action s")
  case None
  assume "step_state (fetch_after s) = Some s'"
  with None show ?thesis by (simp add: fetch_after_def)
next
  case (Some a)
  assume "step_state (fetch_after s) = Some s'"
  with fetch_after_bound [OF Some] show ?thesis by auto
qed

lemma fetch_after_not_Return: "fetch_after s \<noteq> Return it"
  by (auto simp: fetch_after_def split: option.splits prod.splits pyexc.splits)

text \<open>
  C8, as the code has it. The loop recognises its commands by prefix, in this order.
  A line that starts with \<^verbatim>\<open>preview\<close>, in a variant with preview, is a preview of the
  label that follows the first \<^verbatim>\<open>preview\<close>, stripped: it runs the preview hook on the item
  of that label or reports an invalid choice, and fetches nothing. Otherwise a line that
  starts with \<^verbatim>\<open>next\<close> calls the paginator's \<^verbatim>\<open>next\<close>, and otherwise a line that starts
  with \<^verbatim>\<open>previous\<close> calls \<^verbatim>\<open>previous\<close>; neither is reported as an invalid choice.
  Otherwise a line that is a label of the choices returns its item, and any other line is
  reported as an invalid choice.
\<close>

theorem commands_by_prefix:
  "(if startswith line ''preview'' \<and> preview v then
      \<exists>s'. dispatch v line s = Continue s' \<and> paginator s' = paginator s \<and>
           choices s' = choices s \<and>
           events s' = events s @
             [case map_of (choices s) (strip (drop 7 line)) of
                None \<Rightarrow> Report ''Invalid choice, try again''
              | Some it \<Rightarrow> PreviewHook it]
    else if startswith line ''next'' then
      \<exists>s' es. dispatch v line s = Continue s' \<and> events s' = events s @ Fetch Next # es \<and>
           set es \<subseteq> {Report ''There are no more results'',
                      Report ''Choices are out of range, try again''}
    else if startswith line ''previous'' then
      \<exists>s' es. dispatch v line s = Continue s' \<and> events s' = events s @ Fetch Previous # es \<and>
           set es \<subseteq> {Report ''There are no more results'',
                      Report ''Choices are out of range, try again''}
    else
      (case map_of (choices s) line of
         Some it \<Rightarrow> dispatch v line s = Return it
       | None \<Rightarrow>
           \<exists>s' es. step_state (dispatch v line s) = Some s' \<and>
             events s' = events s @ Report ''Invalid choice, try again'' # es))"
proof -
  have pv: "startswith line ''preview'' \<Longrightarrow> preview v \<Longrightarrow>
      \<exists>s'. dispatch v line s = Continue s' \<and> paginator s' = paginator s \<and>
           choices s' = choices s \<and>
           events s' = events s @
             [case map_of (choices s) (strip (drop 7 line)) of
                None \<Rightarrow> Report ''Invalid choice, try again''
              | Some it \<Rightarrow> PreviewHook it]"
    by (simp add: dispatch_def split1_preview error_print_def split: option.splits)
  have nav: "\<exists>s' es. fetch_after (s\<lparr>action := Some a\<rparr>) = Continue s' \<and>
           events s' = events s @ Fetch a # es \<and>
           set es \<subseteq> {Report ''There are no more results'',
                      Report ''Choices are out of range, try again''}" for a
    using fetch_after_bound [of "s\<lparr>action := Some a\<rparr>" a] by simp
  have inv: "\<exists>s' es. step_state (fetch_after (error_print ''Invalid choice, try again'' s)) = Some s' \<and>
             events s' = events s @ Report ''Invalid choice, try again'' # es"
  proof (cases "fetch_after (error_print ''Invalid choice, try again'' s)")
    case (Continue s')
    then have "step_state (fetch_after (error_print ''Invalid choice, try again'' s)) = Some s'"
      by simp
    from fetch_after_events [OF this] this show ?thesis by (auto simp: error_print_def)
  next
    case (Return it)
    then show ?thesis by (simp add: fetch_after_not_Return)
  next
    case (Raise e s')
    then have "step_state (fetch_after (error_print ''Invalid choice, try again'' s)) = Some s'"
      by simp
    from fetch_after_events [OF this] this show ?thesis by (auto simp: error_print_def)
  qed
  show ?thesis
  proof (cases "startswith line ''preview'' \<and> preview v")
    case True
    with pv show ?thesis by simp
  next
    case False
    have d: "dispatch v line s =
      (if startswith line ''next'' then fetch_after (s\<lparr>action := Some Next\<rparr>)
       else if startswith line ''previous'' then fetch_after (s\<lparr>action := Some Previous\<rparr>)
       else (case map_of (choices s) line of
           None \<Rightarrow> fetch_after (error_print ''Invalid choice, try again'' s)
         | Some it \<Rightarrow> Return it))"
      unfolding dispatch_def by (rule if_not_P [OF False])
    show ?thesis
      unfolding if_not_P [OF False] d
      using nav [of Next] nav [of Previous] inv
      by (simp split: option.splits)
  qed
qed

theorem commands_by_prefix_witness:
  "\<exists>s' es. dispatch manga_variant ''nextfoo'' (BaseCommand five 2) = Continue s' \<and>
      events s' = events (BaseCommand five 2) @ Fetch Next # es \<and>
      set es \<subseteq> {Report ''There are no more results'',
                 Report ''Choices are out of range, try again''}"
  using commands_by_prefix [of "''nextfoo''" manga_variant "BaseCommand five 2"]
  by (simp add: startswith_def)

text \<open>
  The claim read literally fails: \<^verbatim>\<open>nextfoo\<close> is not the token \<^verbatim>\<open>next\<close>, yet the prompt
  fetches the second page and reports nothing.
\<close>

theorem next_prefix_counterexample:
  "fetches (events (snd (prompt manga_variant None [''nextfoo''] (BaseCommand five 2))))
     = [Next, Next] \<and>
   reports (events (snd (prompt manga_variant None [''nextfoo''] (BaseCommand five 2)))) = [] \<and>
   map fst (choices (snd (prompt manga_variant None [''nextfoo''] (BaseCommand five 2))))
     = [''0'', ''1'', ''2'', ''3'']"
  by code_simp

section \<open>An empty source\<close>

text \<open>
  C6. Over an empty source the first fetch of a prompt raises \<^verbatim>\<open>IteratorEmpty\<close>; the
  prompt calls \<^verbatim>\<open>on_empty_error\<close> once and does nothing else, and it ends with no
  selection: the interactive prompt returns \<^verbatim>\<open>None\<close> unless the hook has terminated the
  command, and the generator of the direct mode yields nothing.
\<close>

theorem empty_source_no_selection:
  "pg_next (paginator (BaseCommand [] n)) = Inl IteratorEmpty \<and>
   events (snd (prompt v input_pos lines (BaseCommand [] n))) = [Fetch Next, EmptyHook] \<and>
   selection (fst (prompt v input_pos lines (BaseCommand [] n))) = [] \<and>
   fst (prompt v input_pos lines (BaseCommand [] n)) =
     (if input_pos \<noteq> None \<and> input_pos \<noteq> Some [] then AnsGen [] (empty_hook v)
      else (case on_empty_error v of None \<Rightarrow> AnsNone | Some m \<Rightarrow> AnsAbort m))"
proof -
  have nx: "pg_next (paginator (BaseCommand [] n)) = Inl IteratorEmpty"
    by (simp add: pg_next_def BaseCommand_def Paginator_def page_of_def)
  have ic: "insert_choices Next ((BaseCommand [] n)\<lparr>choices := [], action := None\<rparr>)
      = (Some IteratorEmpty, log (Fetch Next) (BaseCommand [] n))"
    using nx by (simp add: insert_choices_def Let_def BaseCommand_def log_def)
  have ic': "insert_choices Next ((BaseCommand [] n)\<lparr>choices := []\<rparr>)
      = (Some IteratorEmpty, log (Fetch Next) (BaseCommand [] n))"
    using nx by (simp add: insert_choices_def Let_def BaseCommand_def log_def)
  have ev: "events (log EmptyHook (log (Fetch Next) (BaseCommand [] n))) = [Fetch Next, EmptyHook]"
    by (simp add: BaseCommand_def)
  show ?thesis
  proof (cases "input_pos \<noteq> None \<and> input_pos \<noteq> Some []")
    case True
    have "return_from v (the input_pos) ((BaseCommand [] n)\<lparr>choices := [], action := None\<rparr>)
        = ([], empty_hook v, log EmptyHook (log (Fetch Next) (BaseCommand [] n)))"
      using ic' by (simp add: return_from_def BaseCommand_def)
    with True nx ev show ?thesis by (simp add: prompt_def)
  next
    case False
    then have "prompt v input_pos lines (BaseCommand [] n) =
      ((case on_empty_error v of None \<Rightarrow> AnsNone | Some m \<Rightarrow> AnsAbort m),
       log EmptyHook (log (Fetch Next) (BaseCommand [] n)))"
      using ic by (auto simp: prompt_def empty_hook_def split: option.splits)
    with False nx ev show ?thesis by (auto split: option.splits)
  qed
qed

theorem empty_source_no_selection_witness:
  "events (snd (prompt manga_variant (Some ''7'') [] (BaseCommand [] 10))) = [Fetch Next, EmptyHook] \<and>
   fst (prompt manga_variant (Some ''7'') [] (BaseCommand [] 10))
     = AnsGen [] (Abort ''Manga search results are empty'') \<and>
   fst (prompt base_variant None [''0''] (BaseCommand [] 10)) = AnsNone"
  using empty_source_no_selection [of 10 manga_variant "Some ''7''" "[]"]
    empty_source_no_selection [of 10 base_variant None "[''0'']"]
  by (simp add: empty_hook_def manga_variant_def base_variant_def)

section \<open>Identities without duplicates\<close>

text \<open>
  What the spec asks of a resolution to several items, in its words: the identities, each
  once, in the order in which they are first seen.
\<close>

fun first_seen :: "'a list \<Rightarrow> 'a list" where
  "first_seen [] = []"
| "first_seen (x # xs) = x # first_seen (removeAll x xs)"

lemma first_seen_filter: "first_seen (filter P xs) = filter P (first_seen xs)"
proof (induction xs rule: first_seen.induct)
  case 1
  show ?case by simp
next
  case (2 x xs)
  have comm: "removeAll x (filter P xs) = filter P (removeAll x xs)"
    by (induction xs) auto
  show ?case
  proof (cases "P x")
    case True
    with 2 comm show ?thesis by simp
  next
    case False
    then have "removeAll x (filter P xs) = filter P xs"
      by (simp add: removeAll_id)
    with comm have "filter P xs = filter P (removeAll x xs)" by simp
    with 2 False show ?thesis by simp
  qed
qed

lemma set_first_seen [simp]: "set (first_seen xs) = set xs"
  by (induction xs rule: first_seen.induct) auto

lemma distinct_first_seen [simp]: "distinct (first_seen xs)"
  by (induction xs rule: first_seen.induct) auto

lemma first_seen_distinct: "distinct xs \<Longrightarrow> first_seen xs = xs"
  by (induction xs) (auto simp: removeAll_id)

lemma first_seen_append:
  "first_seen (xs @ ys) = first_seen xs @ first_seen (filter (\<lambda>y. y \<notin> set xs) ys)"
proof (induction xs arbitrary: ys rule: first_seen.induct)
  case 1
  show ?case by simp
next
  case (2 x xs)
  have "first_seen ((x # xs) @ ys) = x # first_seen (removeAll x xs @ removeAll x ys)"
    by simp
  also have "first_seen (removeAll x xs @ removeAll x ys)
      = first_seen (removeAll x xs) @ first_seen (filter (\<lambda>y. y \<notin> set (removeAll x xs)) (removeAll x ys))"
    by (rule 2)
  also have "filter (\<lambda>y. y \<notin> set (removeAll x xs)) (removeAll x ys)
      = filter (\<lambda>y. y \<notin> set (x # xs)) ys"
    by (induction ys) auto
  finally show ?case by simp
qed

lemma first_seen_is_first_occurrences: "first_seen xs = rev (remdups (rev xs))"
proof (induction xs rule: rev_induct)
  case Nil
  show ?case by simp
next
  case (snoc x xs)
  have "first_seen (xs @ [x]) = first_seen xs @ (if x \<in> set xs then [] else [x])"
    by (simp add: first_seen_append)
  with snoc show ?case by simp
qed

lemma iter_answer_first_seen:
  "iter_answer ys ids = first_seen (filter (\<lambda>i. i \<notin> set ids) (map item_id ys))"
proof (induction ys arbitrary: ids)
  case Nil
  show ?case by simp
next
  case (Cons y ys)
  show ?case
  proof (cases "item_id y \<in> set ids")
    case True
    with Cons show ?thesis by simp
  next
    case False
    have "removeAll (item_id y) (filter (\<lambda>i. i \<notin> set ids) (map item_id ys))
        = filter (\<lambda>i. i \<notin> set (ids @ [item_id y])) (map item_id ys)"
      by (induction ys) auto
    with False Cons show ?thesis by simp
  qed
qed

lemma iter_answer_Nil: "iter_answer ys [] = first_seen (map item_id ys)"
  by (simp add: iter_answer_first_seen)

section \<open>The answers of \<^verbatim>\<open>MangaDexCommand.prompt\<close>\<close>

text \<open>
  C10. \<^verbatim>\<open>MangaDexCommand.prompt\<close> hands out identities only. An item that is not iterable
  becomes the list of its one id. A generator (the direct mode) becomes a generator of
  the ids of its items, and an iterable item a generator of the ids of its elements, each
  id once, in the order of first appearance.
\<close>

theorem prompt_answers_ids:
  "(item_iter it = None \<longrightarrow> ids_of_answer (AnsItem it) = IdList [item_id it]) \<and>
   (item_iter it = Some els \<longrightarrow>
      ids_of_answer (AnsItem it) = IdGen (first_seen (map item_id els)) Exhausted) \<and>
   ids_of_answer (AnsGen ys e) = IdGen (first_seen (map item_id ys)) e \<and>
   fst (MangaDexCommand_prompt v input_pos lines s) = ids_of_answer (fst (prompt v input_pos lines s))"
  by (auto simp: ids_of_answer_def iter_answer_Nil MangaDexCommand_prompt_def split: prod.splits)

theorem prompt_answers_ids_witness:
  "ids_of_answer (AnsItem (manga ''b'' ''B'')) = IdList [''b''] \<and>
   ids_of_answer (AnsItem (Item ''l'' ''L'' (Some [manga ''a'' ''A'', manga ''b'' ''B'', manga ''a'' ''A''])))
     = IdGen [''a'', ''b''] Exhausted \<and>
   ids_of_answer (AnsGen [manga ''a'' ''A'', manga ''a'' ''A2'', manga ''b'' ''B'', manga ''a'' ''A'']
       Exhausted) = IdGen [''a'', ''b''] Exhausted \<and>
   fst (MangaDexCommand_prompt base_variant None [''1''] (BaseCommand five 2)) = IdList [''b'']"
proof -
  have a: "fst (prompt base_variant None [''1''] (BaseCommand five 2)) = AnsItem (manga ''b'' ''B'')"
    by code_simp
  show ?thesis
    using prompt_answers_ids [of "manga ''b'' ''B''" "[]"
        "[manga ''a'' ''A'', manga ''a'' ''A2'', manga ''b'' ''B'', manga ''a'' ''A'']" Exhausted
        base_variant None "[''1'']" "BaseCommand five 2"]
      prompt_answers_ids [of "Item ''l'' ''L'' (Some [manga ''a'' ''A'', manga ''b'' ''B'', manga ''a'' ''A''])"
        "[manga ''a'' ''A'', manga ''b'' ''B'', manga ''a'' ''A'']" "[]" Exhausted
        base_variant None "[]" "BaseCommand five 2"]
    by (simp add: a manga_def)
qed

section \<open>The direct mode\<close>

lemma update_new_key: "k \<notin> fst ` set al \<Longrightarrow> AList.update k v al = al @ [(k, v)]"
  by (induction al) auto

lemma length_labelled [simp]: "length (labelled xs) = length xs"
  by (simp add: labelled_def)

lemma nth_labelled: "i < length xs \<Longrightarrow> labelled xs ! i = (str_nat i, xs ! i)"
  by (simp add: labelled_def)

lemma keys_take_labelled:
  assumes "l \<in> fst ` set (take m (labelled xs))"
  shows "\<exists>i<m. i < length xs \<and> l = str_nat i"
proof -
  from assms obtain e where "e \<in> set (take m (labelled xs))" and l: "l = fst e" by blast
  then obtain i where "i < length (take m (labelled xs))" and "take m (labelled xs) ! i = e"
    by (auto simp: in_set_conv_nth)
  then have "i < m" "i < length xs" "e = (str_nat i, xs ! i)"
    by (simp_all add: nth_labelled)
  with l show ?thesis by auto
qed

lemma snd_labelled: "map snd (labelled xs) = xs"
  by (rule nth_equalityI) (simp_all add: nth_labelled)

lemma distinct_labelled: "distinct (map fst (labelled xs))"
  by (auto simp: labelled_def distinct_map comp_def inj_on_def dest: str_nat_inj)

lemma map_of_labelled: "i < length xs \<Longrightarrow> map_of (labelled xs) (str_nat i) = Some (xs ! i)"
  using distinct_labelled [of xs] by (auto simp: labelled_iff)

lemma map_of_take_labelled:
  "map_of (take m (labelled xs)) l =
     (if \<exists>i<m. i < length xs \<and> l = str_nat i then map_of (labelled xs) l else None)"
proof (cases "\<exists>i<m. i < length xs \<and> l = str_nat i")
  case True
  then obtain i where i: "i < m" "i < length xs" "l = str_nat i" by blast
  then have "(str_nat i, xs ! i) \<in> set (take m (labelled xs))"
    by (auto simp: in_set_conv_nth nth_labelled intro!: exI [of _ i])
  moreover have "distinct (map fst (take m (labelled xs)))"
    using distinct_labelled [of xs] by (simp add: take_map [symmetric])
  ultimately have "map_of (take m (labelled xs)) (str_nat i) = Some (xs ! i)"
    by simp
  with i True show ?thesis by (simp add: map_of_labelled)
next
  case False
  then have "l \<notin> fst ` set (take m (labelled xs))"
    using keys_take_labelled [of l m xs] by blast
  then have "map_of (take m (labelled xs)) l = None"
    by (simp add: map_of_eq_None_iff)
  then show ?thesis unfolding if_not_P [OF False] .
qed

lemma insert_page_range:
  assumes "a \<le> b" and "b \<le> length xs"
  shows "fst (insert_page (map (\<lambda>i. (i, xs ! i)) [a..<b]) (take a (labelled xs)) t)
           = take b (labelled xs)"
  using assms
proof (induction "b - a" arbitrary: a t)
  case 0
  then show ?case by simp
next
  case (Suc d)
  then have lt: "a < b" and a: "a < length xs" by simp_all
  have new: "str_nat a \<notin> fst ` set (take a (labelled xs))"
    using keys_take_labelled [of "str_nat a" a xs] by (auto dest: str_nat_inj)
  have "AList.update (str_nat a) (xs ! a) (take a (labelled xs)) = take (Suc a) (labelled xs)"
    using a by (simp add: update_new_key [OF new] take_Suc_conv_app_nth nth_labelled)
  moreover have "d = b - Suc a" "Suc a \<le> b" using Suc.hyps(2) lt by simp_all
  ultimately show ?case
    using Suc.hyps(1) [of "Suc a"] Suc.prems(2) lt by (simp add: upt_conv_Cons)
qed

lemma insert_page_of:
  assumes "k * n \<le> length xs"
  shows "fst (insert_page (page_of xs n k) (take (k * n) (labelled xs)) t)
           = take (k * n + n) (labelled xs)"
proof -
  let ?b = "min (k * n + n) (length xs)"
  have "fst (insert_page (map (\<lambda>i. (i, xs ! i)) [k * n..<?b]) (take (k * n) (labelled xs)) t)
      = take ?b (labelled xs)"
    using assms by (intro insert_page_range) simp_all
  moreover have "take ?b (labelled xs) = take (k * n + n) (labelled xs)"
    by (simp add: min_def)
  ultimately show ?thesis by (simp only: page_of_def)
qed

text \<open>
  The states of the loop of \<^verbatim>\<open>_return_from\<close>: page \<open>j\<close> was the last one fetched, and the
  choices are the items of the pages up to it.
\<close>

definition direct_state :: "item list \<Rightarrow> nat \<Rightarrow> nat \<Rightarrow> state \<Rightarrow> bool" where
  "direct_state xs n j s =
     (paginator s = \<lparr>pg_items = xs, pg_limit = n, pg_pos = Some j\<rparr> \<and>
      choices s = take (Suc j * n) (labelled xs) \<and> 0 < n \<and> j * n < length xs \<and>
      events s = replicate (Suc j) (Fetch Next))"

lemma page_of_Nil: "0 < n \<Longrightarrow> page_of xs n k = [] \<longleftrightarrow> length xs \<le> k * n"
  by (auto simp: page_of_def)

lemma first_fetch:
  assumes "xs \<noteq> []" and "0 < n"
  shows "\<exists>s'. insert_choices Next ((BaseCommand xs n)\<lparr>choices := [], action := a\<rparr>) = (None, s') \<and>
           direct_state xs n 0 s'"
proof -
  have ne: "page_of xs n 0 \<noteq> []" using assms by (simp add: page_of_Nil)
  have "fst (insert_page (page_of xs n 0) (take (0 * n) (labelled xs)) []) 
      = take (0 * n + n) (labelled xs)"
    by (rule insert_page_of) simp
  then have "fst (insert_page (page_of xs n 0) [] []) = take n (labelled xs)"
    by simp
  with ne assms show ?thesis
    by (auto simp: insert_choices_def pg_next_def Let_def BaseCommand_def Paginator_def log_def
        direct_state_def split: prod.splits)
qed

lemma next_fetch:
  assumes "direct_state xs n j s"
  shows "if length xs \<le> Suc j * n
         then insert_choices Next s = (Some IteratorEmpty, log (Fetch Next) s)
         else (\<exists>s'. insert_choices Next s = (None, s') \<and> direct_state xs n (Suc j) s')"
proof (cases "length xs \<le> Suc j * n")
  case True
  with assms have "page_of xs n (Suc j) = []" by (simp add: page_of_Nil direct_state_def)
  with assms True show ?thesis
    by (simp add: insert_choices_def pg_next_def Let_def direct_state_def log_def)
next
  case False
  with assms have ne: "page_of xs n (Suc j) \<noteq> []" by (simp add: page_of_Nil direct_state_def)
  have "fst (insert_page (page_of xs n (Suc j)) (take (Suc j * n) (labelled xs)) [])
      = take (Suc j * n + n) (labelled xs)"
    using False by (intro insert_page_of) simp
  then have "fst (insert_page (page_of xs n (Suc j)) (choices s) [])
      = take (Suc (Suc j) * n) (labelled xs)"
    using assms by (simp add: direct_state_def add.commute)
  with ne assms False show ?thesis
    unfolding if_not_P [OF False]
    by (auto simp: insert_choices_def pg_next_def Let_def log_def direct_state_def
        replicate_append_same split: prod.splits)
qed


lemma direct_step:
  assumes "direct_state xs n j s" and "map_of (choices s) pos = None"
  shows "if length xs \<le> Suc j * n
         then return_from_step pos s =
                (if pos = ''*'' then take (Suc j * n) xs else [],
                 Stop (Abort ''There are no more results''), log (Fetch Next) s)
         else (\<exists>s'. return_from_step pos s =
                (if pos = ''*'' then take (Suc j * n) xs else [], Again, s') \<and>
                direct_state xs n (Suc j) s')"
proof -
  have ys: "map snd (choices s) = take (Suc j * n) xs"
    using assms(1) by (simp add: direct_state_def take_map [symmetric] snd_labelled)
  show ?thesis
  proof (cases "length xs \<le> Suc j * n")
    case True
    with next_fetch [OF assms(1)]
    have "insert_choices Next s = (Some IteratorEmpty, log (Fetch Next) s)" by simp
    with assms(2) ys show ?thesis
      unfolding if_P [OF True] by (simp add: return_from_step_def)
  next
    case False
    with next_fetch [OF assms(1)] obtain s'
      where "insert_choices Next s = (None, s')" and "direct_state xs n (Suc j) s'"
      by auto
    with assms(2) ys show ?thesis
      unfolding if_not_P [OF False] by (simp add: return_from_step_def)
  qed
qed

lemma first_seen_cong_append:
  assumes "first_seen ys = first_seen zs"
  shows "first_seen (ps @ ys) = first_seen (ps @ zs)"
  using assms by (simp add: first_seen_append first_seen_filter)

lemma first_seen_twice: "first_seen (ps @ ps @ ds) = first_seen (ps @ ds)"
  by (simp add: first_seen_append)

lemma first_seen_prefix_again: "first_seen (take m xs @ xs) = first_seen xs"
  using first_seen_twice [of "take m xs" "drop m xs"] by simp

lemma star_not_bound:
  assumes "direct_state xs n j s"
  shows "map_of (choices s) ''*'' = None"
proof -
  have "''*'' \<noteq> str_nat i" for i
    using label_not_command(4) [OF is_label_str_nat [of i]] by simp
  with assms show ?thesis by (simp add: direct_state_def map_of_take_labelled)
qed

lemma wildcard_loop:
  assumes "direct_state xs n j s"
  shows "\<exists>ys s'. return_from_loop ''*'' s = (ys, Abort ''There are no more results'', s') \<and>
           first_seen (map item_id ys) = first_seen (map item_id xs)"
  using assms
proof (induction "length xs - j * n" arbitrary: j s rule: less_induct)
  case less
  note step = direct_step [OF less.prems star_not_bound [OF less.prems]]
  show ?case
  proof (cases "length xs \<le> Suc j * n")
    case True
    with step have "return_from_step ''*'' s =
        (take (Suc j * n) xs, Stop (Abort ''There are no more results''), log (Fetch Next) s)"
      by simp
    moreover from True have "take (Suc j * n) xs = xs" by simp
    ultimately show ?thesis by (simp add: return_from_loop.simps [of "''*''" s])
  next
    case False
    with step obtain s' where
      st: "return_from_step ''*'' s = (take (Suc j * n) xs, Again, s')" and
      d: "direct_state xs n (Suc j) s'"
      by auto
    from less.prems have "0 < n" "j * n < length xs" by (simp_all add: direct_state_def)
    then have "length xs - Suc j * n < length xs - j * n" by simp
    from less.hyps [OF this d] obtain zs s'' where
      loop: "return_from_loop ''*'' s' = (zs, Abort ''There are no more results'', s'')" and
      fs: "first_seen (map item_id zs) = first_seen (map item_id xs)"
      by blast
    have "first_seen (map item_id (take (Suc j * n) xs @ zs))
        = first_seen (take (Suc j * n) (map item_id xs) @ map item_id zs)"
      by (simp add: take_map)
    also have "\<dots> = first_seen (take (Suc j * n) (map item_id xs) @ map item_id xs)"
      using fs by (rule first_seen_cong_append)
    also have "\<dots> = first_seen (map item_id xs)"
      by (rule first_seen_prefix_again)
    finally show ?thesis
      using st loop by (simp add: return_from_loop.simps [of "''*''" s])
  qed
qed

lemma lookup_missing:
  assumes "direct_state xs n j s" and "pos \<noteq> ''*''" and "map_of (labelled xs) pos = None"
  shows "\<exists>s' k. return_from_loop pos s = ([], Abort ''There are no more results'', s') \<and>
           events s' = replicate (k + 2) (Fetch Next) \<and>
           paginator s' = \<lparr>pg_items = xs, pg_limit = n, pg_pos = Some k\<rparr> \<and>
           k * n < length xs \<and> length xs \<le> Suc k * n"
  using assms(1)
proof (induction "length xs - j * n" arbitrary: j s rule: less_induct)
  case less
  have "map_of (choices s) pos = None"
    using less.prems assms(3) by (simp add: direct_state_def map_of_take_labelled)
  note step = direct_step [OF less.prems this]
  show ?case
  proof (cases "length xs \<le> Suc j * n")
    case True
    with step assms(2) have "return_from_step pos s =
        ([], Stop (Abort ''There are no more results''), log (Fetch Next) s)"
      by simp
    then have "return_from_loop pos s = ([], Abort ''There are no more results'', log (Fetch Next) s)"
      by (simp add: return_from_loop.simps [of pos s])
    moreover have "events (log (Fetch Next) s) = replicate (j + 2) (Fetch Next)"
      using less.prems by (simp add: direct_state_def replicate_append_same)
    moreover have "paginator (log (Fetch Next) s) = \<lparr>pg_items = xs, pg_limit = n, pg_pos = Some j\<rparr>"
      and "j * n < length xs"
      using less.prems by (simp_all add: direct_state_def)
    ultimately show ?thesis using True by blast
  next
    case False
    with step assms(2) obtain s' where
      st: "return_from_step pos s = ([], Again, s')" and d: "direct_state xs n (Suc j) s'"
      by auto
    from less.prems have "0 < n" "j * n < length xs" by (simp_all add: direct_state_def)
    then have "length xs - Suc j * n < length xs - j * n" by simp
    from less.hyps [OF this d] st show ?thesis
      by (auto simp: return_from_loop.simps [of pos s])
  qed
qed

lemma lookup_found:
  assumes "direct_state xs n j s" and "i < length xs" and "j \<le> i div n"
  shows "\<exists>s'. return_from_loop (str_nat i) s = ([xs ! i], Exhausted, s') \<and>
           events s' = replicate (i div n + 1) (Fetch Next)"
  using assms(1,3)
proof (induction "i div n - j" arbitrary: j s)
  case 0
  then have n: "0 < n" and j: "j = i div n" by (simp_all add: direct_state_def)
  then have "i < Suc j * n"
    using div_less_iff_less_mult [of n i "Suc j"] by simp
  with assms(2) have "\<exists>i'<Suc j * n. i' < length xs \<and> str_nat i = str_nat i'" by blast
  then have "map_of (choices s) (str_nat i) = Some (xs ! i)"
    using 0(2) assms(2) by (simp add: direct_state_def map_of_take_labelled map_of_labelled)
  then have "return_from_step (str_nat i) s = ([xs ! i], Stop Exhausted, s)"
    by (simp add: return_from_step_def)
  then have "return_from_loop (str_nat i) s = ([xs ! i], Exhausted, s)"
    by (simp add: return_from_loop.simps [of "str_nat i" s])
  moreover have "events s = replicate (i div n + 1) (Fetch Next)"
    using 0(2) j by (simp add: direct_state_def)
  ultimately show ?case by blast
next
  case (Suc d)
  then have n: "0 < n" and lt: "Suc j \<le> i div n" by (simp_all add: direct_state_def)
  then have ge: "Suc j * n \<le> i"
    using less_eq_div_iff_mult_less_eq [of n "Suc j" i] by simp
  have "\<not> (\<exists>i'<Suc j * n. i' < length xs \<and> str_nat i = str_nat i')"
    using ge by (auto dest: str_nat_inj)
  then have "map_of (take (Suc j * n) (labelled xs)) (str_nat i) = None"
    unfolding map_of_take_labelled by (rule if_not_P)
  with Suc.prems(1) have nf: "map_of (choices s) (str_nat i) = None"
    by (simp add: direct_state_def)
  have star: "str_nat i \<noteq> ''*''"
    using label_not_command(4) [OF is_label_str_nat [of i]] .
  from ge assms(2) have "\<not> length xs \<le> Suc j * n" by simp
  with direct_step [OF Suc.prems(1) nf] star obtain s' where
    st: "return_from_step (str_nat i) s = ([], Again, s')" and d: "direct_state xs n (Suc j) s'"
    by auto
  have "d = i div n - Suc j" using Suc.hyps(2) by simp
  from Suc.hyps(1) [OF this d lt] st show ?case
    by (auto simp: return_from_loop.simps [of "str_nat i" s])
qed


lemma BaseCommand_fresh [simp]:
  "(BaseCommand xs n)\<lparr>choices := []\<rparr> = BaseCommand xs n"
  "(BaseCommand xs n)\<lparr>action := None\<rparr> = BaseCommand xs n"
  by (simp_all add: BaseCommand_def)

lemma prompt_direct:
  assumes "pos \<noteq> []"
  shows "prompt v (Some pos) lines (BaseCommand xs n) =
           (case return_from v pos (BaseCommand xs n) of (ys, e, s') \<Rightarrow> (AnsGen ys e, s'))"
  using assms by (simp add: prompt_def)

lemma return_from_nonempty:
  assumes "xs \<noteq> []" and "0 < n"
  shows "\<exists>s1. direct_state xs n 0 s1 \<and> return_from v pos (BaseCommand xs n) = return_from_loop pos s1"
proof -
  from first_fetch [OF assms, of None] obtain s1 where
    "insert_choices Next (BaseCommand xs n) = (None, s1)" and "direct_state xs n 0 s1"
    by auto
  then show ?thesis by (auto simp: return_from_def)
qed

lemma return_from_empty:
  "return_from v pos (BaseCommand [] n) =
     ([], empty_hook v, log EmptyHook (log (Fetch Next) (BaseCommand [] n)))"
proof -
  have "pg_next (paginator (BaseCommand [] n)) = Inl IteratorEmpty"
    by (simp add: pg_next_def BaseCommand_def Paginator_def page_of_def)
  then have "insert_choices Next (BaseCommand [] n) = (Some IteratorEmpty, log (Fetch Next) (BaseCommand [] n))"
    by (simp add: insert_choices_def Let_def log_def)
  then show ?thesis by (simp add: return_from_def)
qed

section \<open>The wildcard\<close>

text \<open>
  C1. Through \<^verbatim>\<open>MangaDexCommand.prompt\<close> the label \<^verbatim>\<open>*\<close> yields the id of every item of the
  source, each id once, in the order in which the ids first appear in the source. (The
  generator of \<^verbatim>\<open>_return_from\<close> yields all choices again after every page; the filter of
  \<^verbatim>\<open>iter_answer\<close> drops what was yielded before. After the last id the next fetch raises
  \<^verbatim>\<open>IteratorEmpty\<close>, and the generator ends in \<^verbatim>\<open>args_parser.error\<close>.)
\<close>

theorem wildcard_yields_each_id_once:
  assumes "0 < n"
  shows "\<exists>ids. fst (MangaDexCommand_prompt v (Some ''*'') lines (BaseCommand xs n))
             = IdGen ids (if xs = [] then empty_hook v else Abort ''There are no more results'') \<and>
           ids = first_seen (map item_id xs) \<and> distinct ids \<and> set ids = item_id ` set xs"
proof (cases "xs = []")
  case True
  then show ?thesis
    by (simp add: MangaDexCommand_prompt_def prompt_direct return_from_empty ids_of_answer_def)
next
  case False
  from return_from_nonempty [OF False assms] obtain s1 where
    d: "direct_state xs n 0 s1" and
    rf: "return_from v ''*'' (BaseCommand xs n) = return_from_loop ''*'' s1"
    by blast
  from wildcard_loop [OF d] obtain ys s' where
    "return_from_loop ''*'' s1 = (ys, Abort ''There are no more results'', s')" and
    "first_seen (map item_id ys) = first_seen (map item_id xs)"
    by blast
  with rf False show ?thesis
    by (simp add: MangaDexCommand_prompt_def prompt_direct ids_of_answer_def iter_answer_Nil)
qed

theorem wildcard_yields_each_id_once_witness:
  "fst (MangaDexCommand_prompt manga_variant (Some ''*'') []
          (BaseCommand [manga ''a'' ''A'', manga ''b'' ''B'', manga ''a'' ''A'', manga ''c'' ''C'',
                        manga ''b'' ''B'', manga ''d'' ''D'', manga ''e'' ''E''] 2))
     = IdGen [''a'', ''b'', ''c'', ''d'', ''e''] (Abort ''There are no more results'')"
  using wildcard_yields_each_id_once [of 2 manga_variant "[]"
      "[manga ''a'' ''A'', manga ''b'' ''B'', manga ''a'' ''A'', manga ''c'' ''C'',
        manga ''b'' ''B'', manga ''d'' ''D'', manga ''e'' ''E'']"]
  by (simp add: manga_def)

section \<open>Looking a label up\<close>

text \<open>
  C5, as the code has it. In the direct mode, over a source that is not empty and with a
  label other than \<^verbatim>\<open>*\<close>, the engine fetches page after page with \<^verbatim>\<open>next\<close> and nothing
  else. If the label is the one of position \<open>i\<close>, the generator yields that item and ends
  after the fetch of the page that holds it. If no position has the label, every page is
  fetched, one more fetch fails, and \<^verbatim>\<open>args_parser.error\<close> ends the command with
  \<^verbatim>\<open>There are no more results\<close>: nothing is yielded and no prompt is displayed.
\<close>

theorem direct_lookup:
  assumes "xs \<noteq> []" and "0 < n" and "pos \<noteq> []" and "pos \<noteq> ''*''"
  shows "(\<forall>i<length xs. pos = str_nat i \<longrightarrow>
            fst (prompt v (Some pos) lines (BaseCommand xs n)) = AnsGen [xs ! i] Exhausted \<and>
            events (snd (prompt v (Some pos) lines (BaseCommand xs n)))
              = replicate (i div n + 1) (Fetch Next)) \<and>
         (map_of (labelled xs) pos = None \<longrightarrow>
            fst (prompt v (Some pos) lines (BaseCommand xs n))
              = AnsGen [] (Abort ''There are no more results'') \<and>
            (\<exists>k. events (snd (prompt v (Some pos) lines (BaseCommand xs n)))
                    = replicate (k + 2) (Fetch Next) \<and>
                 k * n < length xs \<and> length xs \<le> Suc k * n))"
proof -
  from return_from_nonempty [OF assms(1,2)] obtain s1 where
    d: "direct_state xs n 0 s1" and
    rf: "return_from v pos (BaseCommand xs n) = return_from_loop pos s1"
    by blast
  have found: "fst (prompt v (Some pos) lines (BaseCommand xs n)) = AnsGen [xs ! i] Exhausted \<and>
            events (snd (prompt v (Some pos) lines (BaseCommand xs n)))
              = replicate (i div n + 1) (Fetch Next)"
    if "i < length xs" and "pos = str_nat i" for i
  proof -
    from lookup_found [OF d that(1)] obtain s' where
      "return_from_loop (str_nat i) s1 = ([xs ! i], Exhausted, s')" and
      "events s' = replicate (i div n + 1) (Fetch Next)"
      by auto
    with rf that(2) assms(3) show ?thesis by (simp add: prompt_direct)
  qed
  have missing: "fst (prompt v (Some pos) lines (BaseCommand xs n))
              = AnsGen [] (Abort ''There are no more results'') \<and>
            (\<exists>k. events (snd (prompt v (Some pos) lines (BaseCommand xs n)))
                    = replicate (k + 2) (Fetch Next) \<and>
                 k * n < length xs \<and> length xs \<le> Suc k * n)"
    if "map_of (labelled xs) pos = None"
  proof -
    from lookup_missing [OF d assms(4) that] obtain s' k where
      "return_from_loop pos s1 = ([], Abort ''There are no more results'', s')" and
      "events s' = replicate (k + 2) (Fetch Next)" and
      "k * n < length xs" and "length xs \<le> Suc k * n"
      by blast
    with rf assms(3) show ?thesis by (auto simp: prompt_direct)
  qed
  from found missing show ?thesis by blast
qed

definition three :: "item list" where
  "three = [manga ''a'' ''A'', manga ''b'' ''B'', manga ''c'' ''C'']"

theorem direct_lookup_witness:
  "fst (prompt manga_variant (Some ''7'') [] (BaseCommand three 2))
     = AnsGen [] (Abort ''There are no more results'') \<and>
   fst (prompt manga_variant (Some ''2'') [] (BaseCommand three 2))
     = AnsGen [manga ''c'' ''C''] Exhausted \<and>
   events (snd (prompt manga_variant (Some ''2'') [] (BaseCommand three 2)))
     = [Fetch Next, Fetch Next]"
proof -
  have ne: "three \<noteq> []" by (simp add: three_def)
  have none: "map_of (labelled three) ''7'' = None" by code_simp
  have two: "''2'' = str_nat 2" by code_simp
  have len: "2 < length three" by (simp add: three_def)
  have nth: "three ! 2 = manga ''c'' ''C''" by (simp add: three_def)
  have p7: "(0::nat) < 2" "''7'' \<noteq> []" "''7'' \<noteq> ''*''" by simp_all
  have p2: "(0::nat) < 2" "''2'' \<noteq> []" "''2'' \<noteq> ''*''" by simp_all
  from direct_lookup [OF ne p7, of manga_variant "[]"] none
  have a: "fst (prompt manga_variant (Some ''7'') [] (BaseCommand three 2))
     = AnsGen [] (Abort ''There are no more results'')"
    by blast
  from direct_lookup [OF ne p2, of manga_variant "[]"] two len
  have "fst (prompt manga_variant (Some ''2'') [] (BaseCommand three 2)) = AnsGen [three ! 2] Exhausted \<and>
    events (snd (prompt manga_variant (Some ''2'') [] (BaseCommand three 2)))
      = replicate (2 div 2 + 1) (Fetch Next)"
    by blast
  with a nth show ?thesis by (simp add: numeral_2_eq_2)
qed

text \<open>
  The claim read for every source fails on the empty one: the label is not found and the
  source is exhausted, but the first fetch is handled by \<^verbatim>\<open>on_empty_error\<close>. With the
  hook of \<^verbatim>\<open>BaseCommand\<close> the generator just ends, and with the hook of a variant the
  command ends with that variant's message; \<^verbatim>\<open>There are no more results\<close> is not reported.
\<close>

theorem direct_lookup_empty_counterexample:
  "fst (prompt base_variant (Some ''7'') [] (BaseCommand [] 10)) = AnsGen [] Exhausted \<and>
   fst (prompt manga_variant (Some ''7'') [] (BaseCommand [] 10))
     = AnsGen [] (Abort ''Manga search results are empty'') \<and>
   events (snd (prompt base_variant (Some ''7'') [] (BaseCommand [] 10))) = [Fetch Next, EmptyHook]"
  by code_simp

section \<open>The filters of \<^verbatim>\<open>SearchMangaCommand\<close>\<close>

fun split_all :: "char \<Rightarrow> string \<Rightarrow> string list" where
  \<comment> \<open>\<^verbatim>\<open>s.split(c)\<close> for a separator of one character\<close>
  "split_all c [] = [[]]"
| "split_all c (x # xs) =
     (if x = c then [] # split_all c xs
      else (case split_all c xs of
              w # ws \<Rightarrow> (x # w) # ws
            | [] \<Rightarrow> [[x]]))"

text \<open>A value of a filter: one string, or a list of strings.\<close>

datatype fval = Scalar string | Multi "string list"

text \<open>
  Modelled from the spec: \<^verbatim>\<open>get_key_value\<close> and \<^verbatim>\<open>split_comma_separated\<close> of
  \<^verbatim>\<open>cli/utils.py\<close> are not among the sources. The spec (4.2, filter parsing) says that a
  token is \<^verbatim>\<open>key=value\<close> (\<^verbatim>\<open>key:value\<close> with the separator \<^verbatim>\<open>:\<close>), and that values are
  comma-split into lists except when a single value is kept scalar. A token without the
  separator is taken as a key with an empty value.
\<close>

definition get_key_value :: "string \<Rightarrow> string \<Rightarrow> string \<times> string" where
  "get_key_value text sep =
     (case split1 text sep of
        key # val # _ \<Rightarrow> (key, val)
      | _ \<Rightarrow> (text, []))"

definition split_comma_separated :: "string \<Rightarrow> bool \<Rightarrow> fval" where
  "split_comma_separated text single_value_to_list =
     (if CHR '','' \<notin> set text
      then (if single_value_to_list then Multi [text] else Scalar text)
      else Multi (split_all CHR '','' text))"

definition add_filter :: "(string \<times> fval) list \<Rightarrow> string \<Rightarrow> (string \<times> fval) list" where
  \<comment> \<open>lines 327-342: the body of the loop over the tokens; \<^verbatim>\<open>extend\<close> with a string would
      append its characters\<close>
  "add_filter filter_kwargs f =
     (case get_key_value f ''='' of
        (key, val) \<Rightarrow>
          (case map_of filter_kwargs key of
             None \<Rightarrow> AList.update key (split_comma_separated val False) filter_kwargs
           | Some value_filter_kwargs \<Rightarrow>
               (let new_values =
                      (case value_filter_kwargs of Scalar x \<Rightarrow> [x] | Multi xs \<Rightarrow> xs);
                    vals =
                      (case split_comma_separated val True of
                         Multi ys \<Rightarrow> ys
                       | Scalar y \<Rightarrow> map (\<lambda>c. [c]) y)
                in AList.update key (Multi (new_values @ vals)) filter_kwargs)))"

definition parse_filters :: "string list \<Rightarrow> (string \<times> fval) list" where
  \<comment> \<open>lines 324-342: \<^verbatim>\<open>filter_kwargs\<close> after the loop over \<^verbatim>\<open>args.search_filter or []\<close>\<close>
  "parse_filters filters = foldl add_filter [] filters"

text \<open>
  An argument of \<^verbatim>\<open>IteratorManga\<close>: the value of a filter, or the mapping \<^verbatim>\<open>orders\<close>.
\<close>

datatype farg = Value fval | Orders "(string \<times> fval) list"

definition collect_orders :: "(string \<times> fval) list \<Rightarrow> (string \<times> fval) list" where
  \<comment> \<open>lines 346-348: \<^verbatim>\<open>orders[key] = filter_kwargs[key]\<close> for the keys with \<^verbatim>\<open>'order' in key\<close>\<close>
  "collect_orders filter_kwargs =
     foldl (\<lambda>orders (key, val). if contains ''order'' key then AList.update key val orders else orders)
       [] filter_kwargs"

definition SearchMangaCommand_filters :: "string list \<Rightarrow> (string \<times> farg) list" where
  \<comment> \<open>lines 323-356: the keyword arguments given to \<^verbatim>\<open>IteratorManga\<close>\<close>
  "SearchMangaCommand_filters filters =
     (let filter_kwargs = parse_filters filters;
          orders = collect_orders filter_kwargs;
          popped = foldl (\<lambda>d key. AList.delete key d)
                     (map (\<lambda>(key, val). (key, Value val)) filter_kwargs) (map fst orders)
      in AList.update ''order'' (Orders orders) popped)"

lemma distinct_add_filter:
  "distinct (map fst fk) \<Longrightarrow> distinct (map fst (add_filter fk f))"
  by (auto simp: add_filter_def Let_def distinct_update split: prod.splits option.splits)

lemma distinct_foldl_add_filter:
  "distinct (map fst fk) \<Longrightarrow> distinct (map fst (foldl add_filter fk fs))"
  by (induction fs arbitrary: fk) (simp_all add: distinct_add_filter)

lemma distinct_parse_filters: "distinct (map fst (parse_filters fs))"
  by (simp add: parse_filters_def distinct_foldl_add_filter)

lemma map_of_collect:
  assumes "distinct (map fst fk)"
  shows "map_of (foldl (\<lambda>orders (key, val). if P key then AList.update key val orders else orders) acc fk) k
           = (if P k \<and> k \<in> fst ` set fk then map_of fk k else map_of acc k)"
  using assms
proof (induction fk arbitrary: acc)
  case Nil
  show ?case by simp
next
  case (Cons e fk)
  obtain k0 v0 where e: "e = (k0, v0)" by (cases e)
  from Cons.prems have d: "distinct (map fst fk)" and new: "k0 \<notin> fst ` set fk"
    by (simp_all add: e)
  show ?case
    using new by (auto simp: e Cons.IH [OF d] update_conv')
qed

lemma map_of_collect_orders:
  assumes "distinct (map fst fk)"
  shows "map_of (collect_orders fk) k = (if contains ''order'' k then map_of fk k else None)"
proof -
  have "k \<notin> fst ` set fk \<Longrightarrow> map_of fk k = None" by (simp add: map_of_eq_None_iff)
  then show ?thesis
    unfolding collect_orders_def map_of_collect [OF assms] by auto
qed

lemma map_of_pop_all:
  "map_of (foldl (\<lambda>d key. AList.delete key d) d0 ks) k = (if k \<in> set ks then None else map_of d0 k)"
  by (induction ks arbitrary: d0) (auto simp: delete_conv')

lemma keys_collect_orders:
  assumes "distinct (map fst fk)"
  shows "k \<in> set (map fst (collect_orders fk)) \<longleftrightarrow> contains ''order'' k \<and> k \<in> fst ` set fk"
proof -
  have "k \<in> set (map fst (collect_orders fk)) \<longleftrightarrow> k \<in> dom (map_of (collect_orders fk))"
    by (simp add: dom_map_of_conv_image_fst)
  also have "\<dots> \<longleftrightarrow> contains ''order'' k \<and> k \<in> dom (map_of fk)"
    by (auto simp: dom_def map_of_collect_orders [OF assms])
  also have "\<dots> \<longleftrightarrow> contains ''order'' k \<and> k \<in> fst ` set fk"
    by (simp add: dom_map_of_conv_image_fst)
  finally show ?thesis .
qed

lemma map_of_Value:
  "map_of (map (\<lambda>(key, val). (key, Value val)) al) k = map_option Value (map_of al k)"
  by (induction al) auto

text \<open>
  C2, as the code has it. Every key that contains \<^verbatim>\<open>order\<close> leaves the flat filter mapping
  and is bound, with its value, in the mapping \<^verbatim>\<open>orders\<close>, which the final filter mapping
  holds under the key \<^verbatim>\<open>order\<close>. In \<^verbatim>\<open>orders\<close> the key is the key of the token as it was
  given; every other key keeps its value in the flat mapping.
\<close>

theorem order_keys_move_to_orders:
  "\<exists>orders.
     map_of (SearchMangaCommand_filters fs) ''order'' = Some (Orders orders) \<and>
     (\<forall>k. map_of orders k = (if contains ''order'' k then map_of (parse_filters fs) k else None)) \<and>
     (\<forall>k. k \<noteq> ''order'' \<longrightarrow>
        map_of (SearchMangaCommand_filters fs) k =
          (if contains ''order'' k then None else map_option Value (map_of (parse_filters fs) k)))"
proof -
  let ?fk = "parse_filters fs"
  note d = distinct_parse_filters [of fs]
  note flat = map_of_Value
  have none: "k \<notin> fst ` set ?fk \<Longrightarrow> map_of ?fk k = None" for k
    by (simp add: map_of_eq_None_iff)
  have "map_of (SearchMangaCommand_filters fs) k =
          (if contains ''order'' k then None else map_option Value (map_of ?fk k))"
    if "k \<noteq> ''order''" for k
    using that keys_collect_orders [OF d, of k] none [of k]
    by (auto simp: SearchMangaCommand_filters_def Let_def update_conv' map_of_pop_all flat
        simp del: set_map)
  moreover have "map_of (SearchMangaCommand_filters fs) ''order'' = Some (Orders (collect_orders ?fk))"
    by (simp add: SearchMangaCommand_filters_def Let_def update_conv')
  ultimately show ?thesis
    using map_of_collect_orders [OF d] by blast
qed


theorem order_keys_move_to_orders_witness:
  "map_of (SearchMangaCommand_filters
       [''status=ongoing'', ''order[createdAt]=asc'', ''status=completed,hiatus'']) ''status''
     = Some (Value (Multi [''ongoing'', ''completed'', ''hiatus''])) \<and>
   map_of (SearchMangaCommand_filters
       [''status=ongoing'', ''order[createdAt]=asc'', ''status=completed,hiatus'']) ''order[createdAt]''
     = None"
proof -
  let ?fs = "[''status=ongoing'', ''order[createdAt]=asc'', ''status=completed,hiatus'']"
  have fk: "parse_filters ?fs
      = [(''status'', Multi [''ongoing'', ''completed'', ''hiatus'']),
         (''order[createdAt]'', Scalar ''asc'')]"
    by code_simp
  have c: "\<not> contains ''order'' ''status''" "contains ''order'' ''order[createdAt]''"
    by code_simp+
  from order_keys_move_to_orders [of ?fs]
  have "\<forall>k. k \<noteq> ''order'' \<longrightarrow>
        map_of (SearchMangaCommand_filters ?fs) k =
          (if contains ''order'' k then None else map_option Value (map_of (parse_filters ?fs) k))"
    by blast
  from this [rule_format, of "''status''"] this [rule_format, of "''order[createdAt]''"] c
  show ?thesis by (simp add: fk)
qed

text \<open>
  The claim read literally fails: the key under which \<^verbatim>\<open>orders\<close> holds the direction is the
  whole key \<^verbatim>\<open>order[createdAt]\<close>, not the field name \<^verbatim>\<open>createdAt\<close>.
\<close>

theorem order_key_counterexample:
  "SearchMangaCommand_filters [''order[createdAt]=asc'']
     = [(''order'', Orders [(''order[createdAt]'', Scalar ''asc'')])] \<and>
   SearchMangaCommand_filters [''order[createdAt]=asc'']
     \<noteq> [(''order'', Orders [(''createdAt'', Scalar ''asc'')])]"
  by code_simp

section \<open>Cover art\<close>

text \<open>The values of a decoded JSON response, and of the argument \<^verbatim>\<open>data\<close>.\<close>

datatype json =
    JNull
  | JBool bool
  | JInt int
  | JStr string
  | JList "json list"
  | JDict "(string \<times> json) list"

fun truthy :: "json \<Rightarrow> bool" where
  \<comment> \<open>the truth value that \<^verbatim>\<open>not data\<close> negates\<close>
  "truthy JNull = False"
| "truthy (JBool b) = b"
| "truthy (JInt i) = (i \<noteq> 0)"
| "truthy (JStr s) = (s \<noteq> [])"
| "truthy (JList xs) = (xs \<noteq> [])"
| "truthy (JDict d) = (d \<noteq> [])"

definition subscript :: "json \<Rightarrow> string \<Rightarrow> pyexc + json" where
  \<comment> \<open>\<^verbatim>\<open>x[key]\<close> for a string key: only a mapping has string keys\<close>
  "subscript x key =
     (case x of
        JDict d \<Rightarrow> (case map_of d key of None \<Rightarrow> Inl (KeyError key) | Some v \<Rightarrow> Inr v)
      | _ \<Rightarrow> Inl TypeError)"

record 'l CoverArt =
  self_data :: json
  self_id :: json
  self_description :: json
  self_volume :: json
  self_file :: json
  self_locale :: 'l

text \<open>
  \<^verbatim>\<open>CoverArt.__init__\<close>. The functions \<^verbatim>\<open>get_cover_art\<close> (module \<^verbatim>\<open>fetcher\<close>) and
  \<^verbatim>\<open>get_language\<close> (module \<^verbatim>\<open>language\<close>) are not among the sources and are parameters;
  either may raise. The result is the list of the calls of \<^verbatim>\<open>get_cover_art\<close>, with their
  argument, and the object or the exception that leaves the constructor.
\<close>

definition CoverArt_init ::
  "(string option \<Rightarrow> pyexc + json) \<Rightarrow> (json \<Rightarrow> pyexc + 'l) \<Rightarrow> string option \<Rightarrow> json
     \<Rightarrow> string option list \<times> (pyexc + 'l CoverArt)"
where
  "CoverArt_init get_cover_art get_language cover_id data =
     (case (if \<not> truthy data
            then ([cover_id],
                  case get_cover_art cover_id of
                    Inl e \<Rightarrow> Inl e
                  | Inr response \<Rightarrow> subscript response ''data'')
            else ([], Inr data)) of
        (calls, Inl e) \<Rightarrow> (calls, Inl e)
      | (calls, Inr d) \<Rightarrow>
          (calls,
           case subscript d ''id'' of Inl e \<Rightarrow> Inl e | Inr i \<Rightarrow>
           case subscript d ''attributes'' of Inl e \<Rightarrow> Inl e | Inr attr \<Rightarrow>
           case subscript attr ''description'' of Inl e \<Rightarrow> Inl e | Inr description \<Rightarrow>
           case subscript attr ''volume'' of Inl e \<Rightarrow> Inl e | Inr volume \<Rightarrow>
           case subscript attr ''fileName'' of Inl e \<Rightarrow> Inl e | Inr file \<Rightarrow>
           case subscript attr ''locale'' of Inl e \<Rightarrow> Inl e | Inr loc \<Rightarrow>
           case get_language loc of Inl e \<Rightarrow> Inl e | Inr language \<Rightarrow>
             Inr \<lparr>self_data = d, self_id = i, self_description = description,
                  self_volume = volume, self_file = file, self_locale = language\<rparr>))"

text \<open>
  C9. The constructor calls \<^verbatim>\<open>get_cover_art\<close> exactly when \<^verbatim>\<open>data\<close> is falsy, which
  \<^verbatim>\<open>None\<close> and the empty mapping both are, and then once, with \<^verbatim>\<open>cover_id\<close>. The fields
  are read from \<^verbatim>\<open>data\<close> when it is truthy and from the \<^verbatim>\<open>data\<close> of the response otherwise.
\<close>

theorem cover_art_fetches_iff_falsy:
  "fst (CoverArt_init get_cover_art get_language cover_id data)
     = (if truthy data then [] else [cover_id]) \<and>
   \<not> truthy JNull \<and> \<not> truthy (JDict []) \<and>
   ((truthy data \<and> d = data \<or>
     \<not> truthy data \<and> get_cover_art cover_id = Inr response \<and>
       subscript response ''data'' = Inr d) \<and>
    subscript d ''id'' = Inr i \<and> subscript d ''attributes'' = Inr attr \<and>
    subscript attr ''description'' = Inr description \<and> subscript attr ''volume'' = Inr volume \<and>
    subscript attr ''fileName'' = Inr file \<and> subscript attr ''locale'' = Inr loc \<and>
    get_language loc = Inr language \<longrightarrow>
    snd (CoverArt_init get_cover_art get_language cover_id data)
      = Inr \<lparr>self_data = d, self_id = i, self_description = description,
             self_volume = volume, self_file = file, self_locale = language\<rparr>)"
  by (auto simp: CoverArt_init_def split: sum.splits)

definition sample_cover :: json where
  "sample_cover =
     JDict [(''id'', JStr ''c1''),
            (''attributes'',
             JDict [(''description'', JStr ''''), (''volume'', JStr ''1''),
                    (''fileName'', JStr ''cover.jpg''), (''locale'', JStr ''ja'')])]"

theorem cover_art_fetches_iff_falsy_witness:
  "CoverArt_init (\<lambda>c. Inr (JDict [(''data'', sample_cover)])) Inr (Some ''c1'') (JDict [])
     = ([Some ''c1''],
        Inr \<lparr>self_data = sample_cover, self_id = JStr ''c1'', self_description = JStr '''',
             self_volume = JStr ''1'', self_file = JStr ''cover.jpg'', self_locale = JStr ''ja''\<rparr>) \<and>
   CoverArt_init (\<lambda>c. Inl (OtherError ''no network'')) Inr None sample_cover
     = ([],
        Inr \<lparr>self_data = sample_cover, self_id = JStr ''c1'', self_description = JStr '''',
             self_volume = JStr ''1'', self_file = JStr ''cover.jpg'', self_locale = JStr ''ja''\<rparr>)"
proof -
  let ?attr = "JDict [(''description'', JStr ''''), (''volume'', JStr ''1''),
                    (''fileName'', JStr ''cover.jpg''), (''locale'', JStr ''ja'')]"
  have s: "subscript sample_cover ''id'' = Inr (JStr ''c1'')"
    "subscript sample_cover ''attributes'' = Inr ?attr"
    "subscript ?attr ''description'' = Inr (JStr '''')"
    "subscript ?attr ''volume'' = Inr (JStr ''1'')"
    "subscript ?attr ''fileName'' = Inr (JStr ''cover.jpg'')"
    "subscript ?attr ''locale'' = Inr (JStr ''ja'')"
    "subscript (JDict [(''data'', sample_cover)]) ''data'' = Inr sample_cover"
    by (simp_all add: subscript_def sample_cover_def)
  have t: "truthy sample_cover" by (simp add: sample_cover_def)
  from cover_art_fetches_iff_falsy
    [of "\<lambda>c. Inr (JDict [(''data'', sample_cover)])" Inr "Some ''c1''" "JDict []" sample_cover
        "JDict [(''data'', sample_cover)]" "JStr ''c1''" ?attr "JStr ''''" "JStr ''1''" "JStr ''cover.jpg''" "JStr ''ja''" "JStr ''ja''"]
    s
  have a: "CoverArt_init (\<lambda>c. Inr (JDict [(''data'', sample_cover)])) Inr (Some ''c1'') (JDict [])
     = ([Some ''c1''],
        Inr \<lparr>self_data = sample_cover, self_id = JStr ''c1'', self_description = JStr '''',
             self_volume = JStr ''1'', self_file = JStr ''cover.jpg'', self_locale = JStr ''ja''\<rparr>)"
    by (simp add: prod_eq_iff)
  from cover_art_fetches_iff_falsy
    [of "\<lambda>c. Inl (OtherError ''no network'')" Inr None sample_cover sample_cover
        JNull "JStr ''c1''" ?attr "JStr ''''" "JStr ''1''" "JStr ''cover.jpg''" "JStr ''ja''" "JStr ''ja''"]
    s t
  have b: "CoverArt_init (\<lambda>c. Inl (OtherError ''no network'')) Inr None sample_cover
     = ([],
        Inr \<lparr>self_data = sample_cover, self_id = JStr ''c1'', self_description = JStr '''',
             self_volume = JStr ''1'', self_file = JStr ''cover.jpg'', self_locale = JStr ''ja''\<rparr>)"
    by (simp add: prod_eq_iff)
  from a b show ?thesis by simp
qed

end
